theory Spec2Isabelle
  imports Main
begin

section \<open>Python values, dictionaries and exceptions\<close>

text \<open>
  The parameter client of \<^verbatim>\<open>mava/systems/parameter_client.py\<close> keeps a dictionary
  of named parameters and merges server responses into it. A Python \<^verbatim>\<open>dict\<close> keeps
  its keys in insertion order and the merge loops follow that order, so a dictionary is an
  association list with distinct keys. A parameter value is one of the run-time shapes the
  merge dispatches on. A numeric array has a dtype, a shape and entries: an integer dtype
  holds integers of its width, a floating-point dtype holds finite binary numbers, the two
  infinities and NaN.
\<close>

type_synonym device = string

datatype devspec =
    DeviceName string
      \<comment> \<open>a device given by a string, before \<^verbatim>\<open>jax.devices(name)[0]\<close> resolves it\<close>
  | Device device
  | Devices "device list"
      \<comment> \<open>one device per element of a sequence parameter\<close>

datatype dtype =
    IntType nat
      \<comment> \<open>a signed integer dtype and its width in bits: \<^verbatim>\<open>int64\<close> is \<open>IntType 64\<close>\<close>
  | FloatType nat
      \<comment> \<open>a binary floating-point dtype and its width: \<^verbatim>\<open>float32\<close> is \<open>FloatType 32\<close>\<close>

datatype scalar =
    IntVal int
  | FloatVal int int
      \<comment> \<open>the finite floating-point number \<open>m * 2 ^ e\<close>, by mantissa and exponent; the sign
          of a zero is not kept\<close>
  | PosInf
  | NegInf
  | NaN

datatype pvalue =
    NdArray dtype "nat list" "scalar list"
      \<comment> \<open>\<^verbatim>\<open>numpy.ndarray\<close>: its dtype, its shape and its entries in row-major order\<close>
  | PyDict "(string \<times> pvalue) list"
  | PyTuple "pvalue list"
  | PyList "pvalue list"
  | OnDevice device pvalue
      \<comment> \<open>what \<^verbatim>\<open>jax.device_put(value, device)\<close> returns\<close>
  | PyOther string
      \<comment> \<open>any other object, given by the name of its type\<close>

type_synonym pdict = "(string \<times> pvalue) list"

abbreviation int64_array :: "nat list \<Rightarrow> int list \<Rightarrow> pvalue" where
  "int64_array shp xs \<equiv> NdArray (IntType 64) shp (map IntVal xs)"

datatype notimpl =
    DeviceSupport
      \<comment> \<open>"Support for devices have not been implemented yet in the parameter client."\<close>
  | ParameterType string string
      \<comment> \<open>"Parameter type T of 'key' not implemented. Please use a mutable type for 'key'"\<close>

datatype error =
    KeyError string
  | IndexError
  | TypeError
  | ValueError
  | NotImplementedError notimpl
  | Unmodelled
      \<comment> \<open>the local object is not of the kind the branch is written for, or an array sum needs
          a floating-point rounding or a conversion between dtypes that is not followed here\<close>

text \<open>
  A call either returns or raises; in both cases the mutations done so far stay, so both
  carry the state reached.
\<close>

datatype 'a outcome = Returned 'a | Raised error 'a

fun post :: "'a outcome \<Rightarrow> 'a" where
  "post (Returned s) = s"
| "post (Raised e s) = s"

fun raised :: "'a outcome \<Rightarrow> error option" where
  "raised (Returned s) = None"
| "raised (Raised e s) = Some e"

text \<open>\<^verbatim>\<open>d[k] = v\<close>: an existing key keeps its place, a new key goes last.\<close>

fun setitem :: "'k \<Rightarrow> 'v \<Rightarrow> ('k \<times> 'v) list \<Rightarrow> ('k \<times> 'v) list" where
  "setitem k v [] = [(k, v)]"
| "setitem k v ((k', v') # d) = (if k' = k then (k, v) # d else (k', v') # setitem k v d)"

fun py_type :: "pvalue \<Rightarrow> string" where
  "py_type (NdArray dt shp xs) = ''numpy.ndarray''"
| "py_type (PyDict d) = ''dict''"
| "py_type (PyTuple ts) = ''tuple''"
| "py_type (PyList ls) = ''list''"
| "py_type (OnDevice dev v) = ''jax.Array''"
| "py_type (PyOther t) = t"

text \<open>\<^verbatim>\<open>jax.device_put\<close> is an external function: the value materialised on a device.\<close>

definition device_put :: "pvalue \<Rightarrow> device \<Rightarrow> pvalue" where
  "device_put v dev = OnDevice dev v"

section \<open>The numpy operations of the merge\<close>

text \<open>
  \<^verbatim>\<open>a *= 0\<close>, \<^verbatim>\<open>b[0]\<close> and \<^verbatim>\<open>a += b\<close> on arrays. The product with the
  Python integer 0 stays in the dtype of \<^verbatim>\<open>a\<close>: an integer or a finite number becomes
  zero, an infinity or a NaN becomes NaN.
\<close>

fun times_zero :: "scalar \<Rightarrow> scalar" where
  "times_zero (IntVal x) = IntVal (x * 0)"
| "times_zero (FloatVal m e) = FloatVal (m * 0) e"
| "times_zero PosInf = NaN"
| "times_zero NegInf = NaN"
| "times_zero NaN = NaN"

definition imul_zero :: "scalar list \<Rightarrow> scalar list" where
  "imul_zero xs = map times_zero xs"

definition first_slice :: "nat list \<Rightarrow> 'a list \<Rightarrow> (nat list \<times> 'a list) option" where
  "first_slice shp xs =
     (case shp of
        [] \<Rightarrow> None
      | n # rest \<Rightarrow> if n = 0 then None else Some (rest, take (prod_list rest) xs))"

text \<open>
  The in-place sum broadcasts \<^verbatim>\<open>b\<close> to the shape of \<^verbatim>\<open>a\<close>: the shape of
  \<^verbatim>\<open>b\<close> is padded with leading ones to the rank of \<^verbatim>\<open>a\<close>, and every axis of
  \<^verbatim>\<open>b\<close> has the length of the axis of \<^verbatim>\<open>a\<close> or length one; otherwise numpy
  raises ValueError.
\<close>

fun broadcast_dims :: "nat list \<Rightarrow> nat list \<Rightarrow> 'a list \<Rightarrow> 'a list option" where
  "broadcast_dims [] [] xs = Some xs"
| "broadcast_dims (d # s) (e # t) xs =
     (if d = e then
        map_option concat
          (those (map (\<lambda>i. broadcast_dims s t (take (prod_list s) (drop (i * prod_list s) xs)))
                      [0..<d]))
      else if d = 1 then map_option (\<lambda>ys. concat (replicate e ys)) (broadcast_dims s t xs)
      else None)"
| "broadcast_dims [] (e # t) xs = None"
| "broadcast_dims (d # s) [] xs = None"

definition broadcast_to :: "nat list \<Rightarrow> nat list \<Rightarrow> 'a list \<Rightarrow> 'a list option" where
  "broadcast_to src tgt xs =
     (if length src \<le> length tgt
      then broadcast_dims (replicate (length tgt - length src) 1 @ src) tgt xs
      else None)"

text \<open>
  The sum is computed in the common dtype of the two arrays and cast into the dtype of
  \<^verbatim>\<open>a\<close> under the rule \<^verbatim>\<open>same_kind\<close>. Into an integer buffer an integer sum
  wraps around at the width of the buffer, and a floating-point value is refused with
  \<^verbatim>\<open>UFuncTypeError\<close>, a TypeError, before any entry is touched. Into a floating-point
  buffer a value of the same dtype is added by the rules of IEEE 754: NaN absorbs,
  opposite infinities give NaN, an infinity absorbs a finite number, and a zero added to a
  number gives that number. The sum of two finite numbers other than zero is rounded, and
  so is a value of another dtype cast into a floating-point buffer: these are not followed.
\<close>

definition wrap :: "nat \<Rightarrow> int \<Rightarrow> int" where
  "wrap w x = (x + 2 ^ (w - 1)) mod 2 ^ w - 2 ^ (w - 1)"

fun add_dtype_error :: "dtype \<Rightarrow> dtype \<Rightarrow> error option" where
  "add_dtype_error (IntType w) (IntType w') = None"
| "add_dtype_error (IntType w) (FloatType w') = Some TypeError"
| "add_dtype_error (FloatType w) (FloatType w') = (if w' = w then None else Some Unmodelled)"
| "add_dtype_error (FloatType w) (IntType w') = Some Unmodelled"

fun float_add :: "scalar \<Rightarrow> scalar \<Rightarrow> error + scalar" where
  "float_add (FloatVal m e) (FloatVal m' e') =
     (if m = 0 then Inr (FloatVal m' e')
      else if m' = 0 then Inr (FloatVal m e)
      else Inl Unmodelled)"
| "float_add (IntVal x) y = Inl Unmodelled"
| "float_add x (IntVal y) = Inl Unmodelled"
| "float_add NaN y = Inr NaN"
| "float_add x NaN = Inr NaN"
| "float_add PosInf NegInf = Inr NaN"
| "float_add NegInf PosInf = Inr NaN"
| "float_add PosInf y = Inr PosInf"
| "float_add x PosInf = Inr PosInf"
| "float_add NegInf y = Inr NegInf"
| "float_add x NegInf = Inr NegInf"

fun add_into :: "dtype \<Rightarrow> scalar \<Rightarrow> scalar \<Rightarrow> error + scalar" where
  "add_into (IntType w) (IntVal x) (IntVal y) = Inr (IntVal (wrap w (x + y)))"
| "add_into (IntType w) x y = Inl Unmodelled"
| "add_into (FloatType w) x y = float_add x y"

fun add_all :: "dtype \<Rightarrow> scalar list \<Rightarrow> scalar list \<Rightarrow> error + scalar list" where
  "add_all dt (x # xs) (y # ys) =
     (case add_into dt x y of
        Inl e \<Rightarrow> Inl e
      | Inr z \<Rightarrow> (case add_all dt xs ys of Inl e \<Rightarrow> Inl e | Inr zs \<Rightarrow> Inr (z # zs)))"
| "add_all dt xs ys = Inr []"

definition iadd ::
  "dtype \<Rightarrow> nat list \<Rightarrow> scalar list \<Rightarrow> dtype \<Rightarrow> nat list \<Rightarrow> scalar list \<Rightarrow> error + scalar list" where
  "iadd dt shp xs dt' shp' ys =
     (case add_dtype_error dt dt' of
        Some e \<Rightarrow> Inl e
      | None \<Rightarrow>
          (case broadcast_to shp' shp ys of
             None \<Rightarrow> Inl ValueError
           | Some zs \<Rightarrow> add_all dt xs zs))"

section \<open>The server as the client sees it\<close>

text \<open>
  The parameter server (\<^verbatim>\<open>mava.systems.parameter_server\<close>) is an external
  collaborator. The client sees it as the requests it has sent: each one is pending or has
  completed with a reply. A handle (a future) is the index of its request in this log.
  A \<^verbatim>\<open>set\<close> of keys has no order, so the argument of a get is a list or a set.
  The deltas of an add are integer counters.
\<close>

datatype keys = KeyList "string list" | KeySet "string set"

datatype request =
    GetParameters keys
  | SetParameters pdict
  | AddToParameters "(string \<times> int) list"

datatype status = Pending | Done pdict

text \<open>
  Which operation sent a request, and the request it belongs to: the combined set-then-get
  sends two calls that form one request, named after the first of them.
\<close>

datatype origin = Get_async | Set_async | Set_and_get_async | Add_async | Blocking

record rpc =
  request :: request
  status :: status
  origin :: origin
  group :: nat
  done_callback :: bool
    \<comment> \<open>\<^verbatim>\<open>add_done_callback(lambda ctx: self._copy(ctx.result()))\<close> was attached\<close>

section \<open>The client\<close>

text \<open>
  The fields of \<^verbatim>\<open>ParameterClient\<close>, without the leading underscore. The
  dictionary \<^verbatim>\<open>_parameters\<close> binds each name to an object; objects live in
  \<open>heap\<close>, addressed by their position, so that an update in place (same address, new
  contents) differs from binding the name to a new object. \<open>server\<close> is the log of
  requests sent through \<^verbatim>\<open>_server\<close>.
\<close>

record client =
  all_keys :: "string list"
  get_keys :: "string list"
  set_keys :: "string list"
  parameters :: "(string \<times> nat) list"
  heap :: "pvalue list"
  multi_process :: bool
  get_call_counter :: int
  set_call_counter :: int
  set_get_call_counter :: int
  update_period :: int
  server :: "rpc list"
  devices :: "(string \<times> devspec) list"
  async_add_buffer :: "(string \<times> int) list"
  get_future :: "nat option"
  set_future :: "nat option"
  set_get_future :: "(nat \<times> nat) option"
  add_future :: "nat option"

text \<open>
  \<^verbatim>\<open>__init__\<close>. \<^verbatim>\<open>sort_str_num\<close> (\<^verbatim>\<open>mava.utils.sort_utils\<close>) and
  \<^verbatim>\<open>lambda d: jax.devices(d)[0]\<close> are external and taken as parameters. The
  caller's dictionary and the objects it holds are passed as bindings and heap.
\<close>

fun is_str :: "devspec \<Rightarrow> bool" where
  "is_str (DeviceName n) = True"
| "is_str (Device d) = False"
| "is_str (Devices ds) = False"

definition init ::
  "(string list \<Rightarrow> string list) \<Rightarrow> (devspec \<Rightarrow> devspec) \<Rightarrow> (string \<times> nat) list \<Rightarrow> pvalue list \<Rightarrow>
   bool \<Rightarrow> string list option \<Rightarrow> string list option \<Rightarrow> int \<Rightarrow> (string \<times> devspec) list \<Rightarrow> client" where
  "init sort_str_num jax_first_device params objects multi gkeys skeys period devs =
     \<lparr> all_keys = sort_str_num (map fst params),
       get_keys = (case gkeys of None \<Rightarrow> [] | Some ks \<Rightarrow> ks),
       set_keys = (case skeys of None \<Rightarrow> [] | Some ks \<Rightarrow> ks),
       parameters = params,
       heap = objects,
       multi_process = multi,
       get_call_counter = 0,
       set_call_counter = 0,
       set_get_call_counter = 0,
       update_period = period,
       server = [],
       devices = (if devs \<noteq> [] \<and> is_str (snd (hd devs))
                  then map (\<lambda>(key, dev). (key, jax_first_device dev)) devs else devs),
       async_add_buffer = [],
       get_future = None,
       set_future = None,
       set_get_future = None,
       add_future = None \<rparr>"

text \<open>\<^verbatim>\<open>self._parameters[key]\<close>: the object bound to a name, with its address.\<close>

definition local_object :: "client \<Rightarrow> string \<Rightarrow> (nat \<times> pvalue) option" where
  "local_object c key =
     (case map_of (parameters c) key of
        None \<Rightarrow> None
      | Some a \<Rightarrow> if a < length (heap c) then Some (a, heap c ! a) else None)"

text \<open>Mutating the object at an address, and binding a name to a newly made object.\<close>

definition mutate :: "nat \<Rightarrow> pvalue \<Rightarrow> client \<Rightarrow> client" where
  "mutate a v c = c\<lparr>heap := (heap c)[a := v]\<rparr>"

definition bind_new :: "string \<Rightarrow> pvalue \<Rightarrow> client \<Rightarrow> client" where
  "bind_new key v c =
     c\<lparr>parameters := setitem key (length (heap c)) (parameters c), heap := heap c @ [v]\<rparr>"

section \<open>The merge procedure\<close>

text \<open>
  \<^verbatim>\<open>_copy\<close>, branch by branch. The innermost loop of the dictionary branch runs over
  the keys of the local inner dictionary and reads each from the new one.
\<close>

fun copy_type2 :: "bool \<Rightarrow> pdict \<Rightarrow> pdict \<Rightarrow> string list \<Rightarrow> pdict outcome" where
  "copy_type2 devs new_inner local_inner [] = Returned local_inner"
| "copy_type2 devs new_inner local_inner (type2_key # ks) =
     (if devs then Raised (NotImplementedError DeviceSupport) local_inner
      else case map_of new_inner type2_key of
             None \<Rightarrow> Raised (KeyError type2_key) local_inner
           | Some v \<Rightarrow> copy_type2 devs new_inner (setitem type2_key v local_inner) ks)"

fun copy_nested :: "bool \<Rightarrow> pdict \<Rightarrow> string \<Rightarrow> pdict \<Rightarrow> pvalue option \<Rightarrow> pdict outcome" where
  "copy_nested devs new_inner type1_key ld None = Raised (KeyError type1_key) ld"
| "copy_nested devs new_inner type1_key ld (Some (PyDict li)) =
     (case copy_type2 devs new_inner li (map fst li) of
        Returned li' \<Rightarrow> Returned (setitem type1_key (PyDict li') ld)
      | Raised e li' \<Rightarrow> Raised e (setitem type1_key (PyDict li') ld))"
| "copy_nested devs new_inner type1_key ld (Some v) = Raised Unmodelled ld"

fun copy_type1 :: "bool \<Rightarrow> pdict \<Rightarrow> string \<Rightarrow> pvalue \<Rightarrow> pdict outcome" where
  "copy_type1 devs ld type1_key (PyDict new_inner) =
     copy_nested devs new_inner type1_key ld (map_of ld type1_key)"
| "copy_type1 devs ld type1_key v = Returned (setitem type1_key v ld)"

fun at_local_dict :: "client \<Rightarrow> string \<Rightarrow> (pdict \<Rightarrow> pdict outcome) \<Rightarrow> client outcome" where
  "at_local_dict c key f =
     (case local_object c key of
        None \<Rightarrow> Raised (KeyError key) c
      | Some (a, PyDict ld) \<Rightarrow>
          (case f ld of
             Returned ld' \<Rightarrow> Returned (mutate a (PyDict ld') c)
           | Raised e ld' \<Rightarrow> Raised e (mutate a (PyDict ld') c))
      | Some (a, v) \<Rightarrow> Raised Unmodelled c)"

fun copy_dict :: "client \<Rightarrow> string \<Rightarrow> pdict \<Rightarrow> client outcome" where
  "copy_dict c key [] = Returned c"
| "copy_dict c key ((type1_key, v) # rest) =
     (case at_local_dict c key (\<lambda>ld. copy_type1 (devices c \<noteq> []) ld type1_key v) of
        Returned c' \<Rightarrow> copy_dict c' key rest
      | Raised e c' \<Rightarrow> Raised e c')"

text \<open>
  The array branch. Without devices the local array is zeroed in place and the new value,
  or its first slice when the shapes differ, is added in place.
\<close>

fun put_array :: "client \<Rightarrow> string \<Rightarrow> pvalue \<Rightarrow> devspec option \<Rightarrow> client outcome" where
  "put_array c key v None = Raised (KeyError key) c"
| "put_array c key v (Some (Device dev)) = Returned (bind_new key (device_put v dev) c)"
| "put_array c key v (Some d) = Raised Unmodelled c"

fun add_in_place ::
  "client \<Rightarrow> nat \<Rightarrow> dtype \<Rightarrow> nat list \<Rightarrow> scalar list \<Rightarrow> dtype \<Rightarrow>
   (nat list \<times> scalar list) option \<Rightarrow> client outcome" where
  "add_in_place c a dt shp xs dt' None = Raised IndexError c"
| "add_in_place c a dt shp xs dt' (Some (shp', ys)) =
     (case iadd dt shp xs dt' shp' ys of
        Inl e \<Rightarrow> Raised e c
      | Inr zs \<Rightarrow> Returned (mutate a (NdArray dt shp zs) c))"

fun merge_array ::
  "client \<Rightarrow> string \<Rightarrow> dtype \<Rightarrow> nat list \<Rightarrow> scalar list \<Rightarrow> (nat \<times> pvalue) option \<Rightarrow>
   client outcome" where
  "merge_array c key new_dtype new_shape new_entries None = Raised (KeyError key) c"
| "merge_array c key new_dtype new_shape new_entries (Some (a, NdArray dt shp xs)) =
     (let zs = imul_zero xs;
          c0 = mutate a (NdArray dt shp zs) c
      in if new_shape \<noteq> shp
         then add_in_place c0 a dt shp zs new_dtype (first_slice new_shape new_entries)
         else add_in_place c0 a dt shp zs new_dtype (Some (new_shape, new_entries)))"
| "merge_array c key new_dtype new_shape new_entries (Some (a, v)) = Raised Unmodelled c"

definition copy_ndarray ::
  "client \<Rightarrow> string \<Rightarrow> dtype \<Rightarrow> nat list \<Rightarrow> scalar list \<Rightarrow> client outcome" where
  "copy_ndarray c key new_dtype new_shape new_entries =
     (if devices c \<noteq> []
      then put_array c key (NdArray new_dtype new_shape new_entries) (map_of (devices c) key)
      else merge_array c key new_dtype new_shape new_entries (local_object c key))"

text \<open>
  The tuple branch: one assignment per index of the local sequence. The right-hand side is
  evaluated first; assigning into a local tuple raises TypeError.
\<close>

fun device_at :: "devspec option \<Rightarrow> nat \<Rightarrow> string \<Rightarrow> error + device" where
  "device_at None i key = Inl (KeyError key)"
| "device_at (Some (Devices ds)) i key = (if i < length ds then Inr (ds ! i) else Inl IndexError)"
| "device_at (Some d) i key = Inl Unmodelled"

fun copy_items ::
  "(string \<times> devspec) list \<Rightarrow> string \<Rightarrow> bool \<Rightarrow> pvalue list \<Rightarrow> pvalue list \<Rightarrow> nat list \<Rightarrow>
   pvalue list outcome" where
  "copy_items devs key mutable new_items ls [] = Returned ls"
| "copy_items devs key mutable new_items ls (i # rest) =
     (if \<not> i < length new_items then Raised IndexError ls
      else if devs \<noteq> [] then
        (case device_at (map_of devs key) i key of
           Inl e \<Rightarrow> Raised e ls
         | Inr dev \<Rightarrow>
             if mutable
             then copy_items devs key mutable new_items (ls[i := device_put (new_items ! i) dev]) rest
             else Raised TypeError ls)
      else if mutable then copy_items devs key mutable new_items (ls[i := new_items ! i]) rest
      else Raised TypeError ls)"

fun merge_tuple :: "client \<Rightarrow> string \<Rightarrow> pvalue list \<Rightarrow> (nat \<times> pvalue) option \<Rightarrow> client outcome" where
  "merge_tuple c key new_items None = Raised (KeyError key) c"
| "merge_tuple c key new_items (Some (a, PyList ls)) =
     (case copy_items (devices c) key True new_items ls [0..<length ls] of
        Returned ls' \<Rightarrow> Returned (mutate a (PyList ls') c)
      | Raised e ls' \<Rightarrow> Raised e (mutate a (PyList ls') c))"
| "merge_tuple c key new_items (Some (a, PyTuple ls)) =
     (case copy_items (devices c) key False new_items ls [0..<length ls] of
        Returned ls' \<Rightarrow> Returned c
      | Raised e ls' \<Rightarrow> Raised e c)"
| "merge_tuple c key new_items (Some (a, v)) = Raised Unmodelled c"

definition copy_tuple :: "client \<Rightarrow> string \<Rightarrow> pvalue list \<Rightarrow> client outcome" where
  "copy_tuple c key new_items = merge_tuple c key new_items (local_object c key)"

text \<open>The dispatch on the type of the new value, and the loop over the keys of the response.\<close>

fun copy_entry :: "client \<Rightarrow> string \<Rightarrow> pvalue \<Rightarrow> client outcome" where
  "copy_entry c key (PyDict d) = copy_dict c key d"
| "copy_entry c key (NdArray new_dtype new_shape new_entries) =
     copy_ndarray c key new_dtype new_shape new_entries"
| "copy_entry c key (PyTuple new_items) = copy_tuple c key new_items"
| "copy_entry c key v = Raised (NotImplementedError (ParameterType (py_type v) key)) c"

fun copy :: "client \<Rightarrow> pdict \<Rightarrow> client outcome" where
  "copy c [] = Returned c"
| "copy c ((key, v) # rest) =
     (case copy_entry c key v of
        Returned c' \<Rightarrow> copy c' rest
      | Raised e c' \<Rightarrow> Raised e c')"

section \<open>Requests and handles\<close>

definition send :: "origin \<Rightarrow> nat \<Rightarrow> bool \<Rightarrow> request \<Rightarrow> status \<Rightarrow> client \<Rightarrow> client" where
  "send who g cb q st c =
     c\<lparr>server := server c @
        [\<lparr>request = q, status = st, origin = who, group = g, done_callback = cb\<rparr>]\<rparr>"

text \<open>
  \<^verbatim>\<open>server.futures.f(...)\<close>: the request leaves and a handle comes back. The remote
  side may answer at any time, also before the caller looks at the handle for the first
  time: \<open>early\<close> says whether \<open>reply\<close> has arrived by then.
\<close>

definition remote_future :: "origin \<Rightarrow> bool \<Rightarrow> request \<Rightarrow> bool \<Rightarrow> pdict \<Rightarrow> client \<Rightarrow> client" where
  "remote_future who cb q early reply c =
     send who (length (server c)) cb q (if early then Done reply else Pending) c"

text \<open>
  Modelled from the spec: the class \<^verbatim>\<open>DoneFuture\<close> of \<^verbatim>\<open>mava.utils.done_future\<close>
  is not among the sources. The spec says that in single-process mode every "async"
  operation "still returns an already-completed handle and executes synchronously":
  \<^verbatim>\<open>DoneFuture(f())\<close> calls the server at once and wraps its reply in a handle
  whose \<^verbatim>\<open>done()\<close> is true.
\<close>

definition done_future :: "origin \<Rightarrow> request \<Rightarrow> pdict \<Rightarrow> client \<Rightarrow> client" where
  "done_future who q reply c = send who (length (server c)) False q (Done reply) c"

fun is_done :: "status \<Rightarrow> bool" where
  "is_done Pending = False"
| "is_done (Done r) = True"

fun result :: "status \<Rightarrow> pdict" where
  "result Pending = []"
| "result (Done r) = r"

definition handle_status :: "client \<Rightarrow> nat \<Rightarrow> status" where
  "handle_status c f = (if f < length (server c) then status (server c ! f) else Pending)"

text \<open>\<^verbatim>\<open>self._x_future is not None and self._x_future.done()\<close>\<close>

fun poll :: "client \<Rightarrow> nat option \<Rightarrow> bool" where
  "poll c None = False"
| "poll c (Some f) = is_done (handle_status c f)"

text \<open>\<^verbatim>\<open>{key: self._parameters[key] for key in self._set_keys}\<close>\<close>

fun gather :: "client \<Rightarrow> string list \<Rightarrow> pdict \<Rightarrow> error + pdict" where
  "gather c [] acc = Inr acc"
| "gather c (key # ks) acc =
     (case local_object c key of
        None \<Rightarrow> Inl (KeyError key)
      | Some (a, v) \<Rightarrow> gather c ks (setitem key v acc))"

text \<open>The lambdas of \<^verbatim>\<open>__init__\<close>, in their two variants.\<close>

definition async_request :: "pdict \<Rightarrow> bool \<Rightarrow> client \<Rightarrow> client" where
  "async_request reply early c =
     (if multi_process c
      then remote_future Get_async False (GetParameters (KeyList (get_keys c))) early reply c
      else done_future Get_async (GetParameters (KeyList (get_keys c))) reply c)"

definition async_adjust_param :: "pdict \<Rightarrow> client \<Rightarrow> client" where
  "async_adjust_param params c =
     (if multi_process c
      then remote_future Set_async False (SetParameters params) False [] c
      else done_future Set_async (SetParameters params) [] c)"

definition async_adjust :: "client \<Rightarrow> error + client" where
  "async_adjust c =
     (case gather c (set_keys c) [] of
        Inl e \<Rightarrow> Inl e
      | Inr params \<Rightarrow> Inr (async_adjust_param params c))"

definition async_add :: "(string \<times> int) list \<Rightarrow> client \<Rightarrow> client" where
  "async_add params c =
     (if multi_process c
      then remote_future Add_async False (AddToParameters params) False [] c
      else done_future Add_async (AddToParameters params) [] c)"

section \<open>The operations of the client\<close>

definition adjust_and_request :: "pdict \<Rightarrow> client \<Rightarrow> client outcome" where
  "adjust_and_request reply c =
     (case gather c (set_keys c) [] of
        Inl e \<Rightarrow> Raised e c
      | Inr params \<Rightarrow>
          (let g = length (server c);
               c1 = send Set_and_get_async g False (SetParameters params) (Done []) c;
               c2 = send Set_and_get_async g False (GetParameters (KeyList (get_keys c)))
                      (Done reply) c1
           in copy c2 reply))"

definition async_adjust_and_request :: "pdict \<Rightarrow> client \<Rightarrow> ((nat \<times> nat) option \<times> client) outcome" where
  "async_adjust_and_request reply c =
     (if \<not> multi_process c then
        (case adjust_and_request reply c of
           Returned c' \<Rightarrow> Returned (None, c')
         | Raised e c' \<Rightarrow> Raised e (None, c'))
      else
        (case gather c (set_keys c) [] of
           Inl e \<Rightarrow> Raised e (None, c)
         | Inr params \<Rightarrow>
             (let g = length (server c);
                  c1 = send Set_and_get_async g False (SetParameters params) Pending c;
                  get_keys' = set (get_keys c) - set (set_keys c);
                  c2 = send Set_and_get_async g True (GetParameters (KeySet get_keys')) Pending c1
              in Returned (Some (g, Suc g), c2))))"

definition get_async :: "pdict \<Rightarrow> bool \<Rightarrow> client \<Rightarrow> client outcome" where
  "get_async reply early c =
     (let c1 = (if get_call_counter c < update_period c
                then c\<lparr>get_call_counter := get_call_counter c + 1\<rparr> else c);
          period_reached = (get_call_counter c1 \<ge> update_period c1);
          c2 = (if period_reached \<and> get_future c1 = None
                then (async_request reply early c1)
                       \<lparr>get_future := Some (length (server c1)), get_call_counter := 0\<rparr>
                else c1)
      in if poll c2 (get_future c2)
         then (case get_future c2 of
                 None \<Rightarrow> Returned c2
               | Some f \<Rightarrow>
                   (case copy c2 (result (handle_status c2 f)) of
                      Returned c3 \<Rightarrow> Returned (c3\<lparr>get_future := None\<rparr>)
                    | Raised e c3 \<Rightarrow> Raised e c3))
         else Returned c2)"

definition set_async :: "pdict option \<Rightarrow> client \<Rightarrow> client outcome" where
  "set_async params c =
     (let c1 = (if set_call_counter c < update_period c
                then c\<lparr>set_call_counter := set_call_counter c + 1\<rparr> else c);
          period_reached = (set_call_counter c1 \<ge> update_period c1)
      in if period_reached \<and> set_future c1 = None then
           (case (case params of None \<Rightarrow> async_adjust c1 | Some ps \<Rightarrow> Inr (async_adjust_param ps c1)) of
              Inl e \<Rightarrow> Raised e c1
            | Inr c2 \<Rightarrow>
                Returned (c2\<lparr>set_future := Some (length (server c1)), set_call_counter := 0\<rparr>))
         else if poll c1 (set_future c1) then Returned (c1\<lparr>set_future := None\<rparr>)
         else Returned c1)"

fun all_done :: "client \<Rightarrow> (nat \<times> nat) option \<Rightarrow> bool" where
  "all_done c None = False"
| "all_done c (Some (sf, gf)) = (is_done (handle_status c sf) \<and> is_done (handle_status c gf))"

definition set_and_get_async :: "pdict \<Rightarrow> client \<Rightarrow> client outcome" where
  "set_and_get_async reply c =
     (let c1 = (if set_get_call_counter c < update_period c
                then c\<lparr>set_get_call_counter := set_get_call_counter c + 1\<rparr> else c);
          period_reached = (set_get_call_counter c1 \<ge> update_period c1)
      in if period_reached \<and> set_get_future c1 = None then
           (case async_adjust_and_request reply c1 of
              Raised e (fut, c2) \<Rightarrow> Raised e c2
            | Returned (fut, c2) \<Rightarrow>
                Returned (c2\<lparr>set_get_future := fut, set_get_call_counter := 0\<rparr>))
         else if all_done c1 (set_get_future c1) then Returned (c1\<lparr>set_get_future := None\<rparr>)
         else Returned c1)"

text \<open>
  The two loops of \<^verbatim>\<open>add_async\<close> over the names of the new delta:
  \<^verbatim>\<open>buffer[name] += params[name]\<close> reads the buffer entry first, and
  \<^verbatim>\<open>buffer[name] = params[name]\<close>.
\<close>

fun iadd_all :: "(string \<times> int) list \<Rightarrow> (string \<times> int) list \<Rightarrow> (string \<times> int) list outcome" where
  "iadd_all buf [] = Returned buf"
| "iadd_all buf ((name, delta) # rest) =
     (case map_of buf name of
        None \<Rightarrow> Raised (KeyError name) buf
      | Some x \<Rightarrow> iadd_all (setitem name (x + delta) buf) rest)"

fun assign_all :: "(string \<times> int) list \<Rightarrow> (string \<times> int) list \<Rightarrow> (string \<times> int) list" where
  "assign_all buf [] = buf"
| "assign_all buf ((name, delta) # rest) = assign_all (setitem name delta buf) rest"

definition add_async :: "(string \<times> int) list \<Rightarrow> client \<Rightarrow> client outcome" where
  "add_async params c =
     (let c1 = (if poll c (add_future c) then c\<lparr>add_future := None\<rparr> else c)
      in if add_future c1 = None then
           (if async_add_buffer c1 = [] then
              Returned ((async_add params c1)\<lparr>add_future := Some (length (server c1))\<rparr>)
            else
              (case iadd_all (async_add_buffer c1) params of
                 Raised e buf \<Rightarrow> Raised e (c1\<lparr>async_add_buffer := buf\<rparr>)
               | Returned buf \<Rightarrow>
                   Returned ((async_add buf c1)
                     \<lparr>add_future := Some (length (server c1)), async_add_buffer := []\<rparr>)))
         else if async_add_buffer c1 \<noteq> [] then
           (case iadd_all (async_add_buffer c1) params of
              Raised e buf \<Rightarrow> Raised e (c1\<lparr>async_add_buffer := buf\<rparr>)
            | Returned buf \<Rightarrow> Returned (c1\<lparr>async_add_buffer := buf\<rparr>))
         else Returned (c1\<lparr>async_add_buffer := assign_all (async_add_buffer c1) params\<rparr>))"

text \<open>The blocking family calls the server directly.\<close>

definition add_and_wait :: "(string \<times> int) list \<Rightarrow> client \<Rightarrow> client outcome" where
  "add_and_wait params c =
     Returned (send Blocking (length (server c)) False (AddToParameters params) (Done []) c)"

definition get_and_wait :: "pdict \<Rightarrow> client \<Rightarrow> client outcome" where
  "get_and_wait reply c =
     copy (send Blocking (length (server c)) False (GetParameters (KeyList (get_keys c)))
             (Done reply) c) reply"

definition get_all_and_wait :: "pdict \<Rightarrow> client \<Rightarrow> client outcome" where
  "get_all_and_wait reply c =
     copy (send Blocking (length (server c)) False (GetParameters (KeyList (all_keys c)))
             (Done reply) c) reply"

definition set_and_wait :: "pdict option \<Rightarrow> client \<Rightarrow> client outcome" where
  "set_and_wait params c =
     (case params of
        None \<Rightarrow>
          (case gather c (set_keys c) [] of
             Inl e \<Rightarrow> Raised e c
           | Inr ps \<Rightarrow>
               Returned (send Blocking (length (server c)) False (SetParameters ps) (Done []) c))
      | Some ps \<Rightarrow>
          Returned (send Blocking (length (server c)) False (SetParameters ps) (Done []) c))"

section \<open>The environment: completions, and runs of calls\<close>

text \<open>
  Between two calls of the client a pending request may complete with some reply. If the
  completion callback was attached, it merges the reply; an exception raised inside a
  callback is logged by the handle and not propagated, so only its effects remain.
\<close>

definition complete :: "nat \<Rightarrow> pdict \<Rightarrow> client \<Rightarrow> client" where
  "complete i reply c =
     (if i < length (server c) \<and> status (server c ! i) = Pending then
        (let c1 = c\<lparr>server := (server c)[i := (server c ! i)\<lparr>status := Done reply\<rparr>]\<rparr>
         in if done_callback (server c ! i) then post (copy c1 reply) else c1)
      else c)"

datatype event =
    Get_async_call pdict bool
  | Set_async_call "pdict option"
  | Set_and_get_async_call pdict
  | Add_async_call "(string \<times> int) list"
  | Add_and_wait_call "(string \<times> int) list"
  | Get_and_wait_call pdict
  | Get_all_and_wait_call pdict
  | Set_and_wait_call "pdict option"
  | Completes nat pdict

fun step :: "event \<Rightarrow> client \<Rightarrow> client outcome" where
  "step (Get_async_call reply early) c = get_async reply early c"
| "step (Set_async_call params) c = set_async params c"
| "step (Set_and_get_async_call reply) c = set_and_get_async reply c"
| "step (Add_async_call params) c = add_async params c"
| "step (Add_and_wait_call params) c = add_and_wait params c"
| "step (Get_and_wait_call reply) c = get_and_wait reply c"
| "step (Get_all_and_wait_call reply) c = get_all_and_wait reply c"
| "step (Set_and_wait_call params) c = set_and_wait params c"
| "step (Completes i reply) c = Returned (complete i reply c)"

text \<open>
  A run of events. A caller may catch an exception and go on, so the run continues from
  the state an exception leaves; a run that stops at the exception is a prefix of it.
\<close>

fun run :: "event list \<Rightarrow> client \<Rightarrow> client" where
  "run [] c = c"
| "run (ev # evs) c = run evs (post (step ev c))"

section \<open>The executor's observation component\<close>

text \<open>
  \<^verbatim>\<open>FeedforwardExecutorObserve\<close> of
  \<^verbatim>\<open>mava/systems/idqn/components/executing/observing.py\<close> works on the store of the
  executor. The adder is an external sink: it is the list of the calls it has received, or
  absent. Timesteps, metadata values and action records are opaque (\<open>'t\<close>, \<open>'x\<close>,
  \<open>'a\<close>).
\<close>

datatype ('t, 'x, 'a) adder_call =
    Add_first 't "(string \<times> 'x) list"
  | Add "(string \<times> (string \<times> 'a) list) list" 't "(string \<times> 'x) list"

record ('t, 'x, 'a) store =
  adder :: "('t, 'x, 'a) adder_call list option"
  agent_net_keys :: "(string \<times> string) list"
  network_int_keys_extras :: 'x
  network_sampling_setup :: "string list list"
  net_keys_to_ids :: "(string \<times> int) list"
  extras :: "(string \<times> 'x) list"
  next_extras :: "(string \<times> 'x) list"
  timestep :: 't
  next_timestep :: 't
  actions_info :: "(string \<times> 'a) list"
  executor_parameter_client :: "client option"

text \<open>
  \<^verbatim>\<open>sample_new_agent_keys\<close> and \<^verbatim>\<open>sort_str_num\<close> of
  \<^verbatim>\<open>mava.utils.sort_utils\<close> are external and taken as parameters; the sampler draws
  at random, so each call of the first hook comes with its own.
\<close>

type_synonym 'x sampler =
  "string list \<Rightarrow> string list list \<Rightarrow> (string \<times> int) list \<Rightarrow> 'x \<times> (string \<times> string) list"

definition on_execution_observe_first ::
  "(string list \<Rightarrow> string list) \<Rightarrow> 'x sampler \<Rightarrow> ('t, 'x, 'a) store \<Rightarrow> ('t, 'x, 'a) store" where
  "on_execution_observe_first sort_str_num sample_new_agent_keys st =
     (case adder st of
        None \<Rightarrow> st
      | Some calls \<Rightarrow>
          (let agents = sort_str_num (map fst (agent_net_keys st));
               sampled = sample_new_agent_keys agents (network_sampling_setup st) (net_keys_to_ids st);
               st1 = st\<lparr>network_int_keys_extras := fst sampled, agent_net_keys := snd sampled\<rparr>;
               st2 = st1\<lparr>extras :=
                       setitem ''network_int_keys'' (network_int_keys_extras st1) (extras st1)\<rparr>
           in st2\<lparr>adder := Some (calls @ [Add_first (timestep st2) (extras st2)])\<rparr>))"

fun adder_actions_of ::
  "(string \<times> 'a) list \<Rightarrow> (string \<times> (string \<times> 'a) list) list \<Rightarrow> (string \<times> (string \<times> 'a) list) list" where
  "adder_actions_of [] acc = acc"
| "adder_actions_of ((agent, info) # rest) acc =
     adder_actions_of rest (setitem agent [(''actions_info'', info)] acc)"

definition on_execution_observe :: "('t, 'x, 'a) store \<Rightarrow> ('t, 'x, 'a) store" where
  "on_execution_observe st =
     (case adder st of
        None \<Rightarrow> st
      | Some calls \<Rightarrow>
          (let adder_actions = adder_actions_of (actions_info st) [];
               st1 = st\<lparr>next_extras :=
                       setitem ''network_int_keys'' (network_int_keys_extras st) (next_extras st)\<rparr>
           in st1\<lparr>adder := Some (calls @ [Add adder_actions (next_timestep st1) (next_extras st1)])\<rparr>))"

definition on_execution_update ::
  "pdict \<Rightarrow> bool \<Rightarrow> ('t, 'x, 'a) store \<Rightarrow> ('t, 'x, 'a) store outcome" where
  "on_execution_update reply early st =
     (case executor_parameter_client st of
        None \<Rightarrow> Returned st
      | Some c \<Rightarrow>
          (case get_async reply early c of
             Returned c' \<Rightarrow> Returned (st\<lparr>executor_parameter_client := Some c'\<rparr>)
           | Raised e c' \<Rightarrow> Raised e (st\<lparr>executor_parameter_client := Some c'\<rparr>)))"

definition on_execution_force_update ::
  "pdict \<Rightarrow> ('t, 'x, 'a) store \<Rightarrow> ('t, 'x, 'a) store outcome" where
  "on_execution_force_update reply st =
     (case executor_parameter_client st of
        None \<Rightarrow> Returned st
      | Some c \<Rightarrow>
          (case get_and_wait reply c of
             Returned c' \<Rightarrow> Returned (st\<lparr>executor_parameter_client := Some c'\<rparr>)
           | Raised e c' \<Rightarrow> Raised e (st\<lparr>executor_parameter_client := Some c'\<rparr>)))"

text \<open>
  What happens to the store during an episode: the four hooks, and the executor itself,
  which sets the timesteps, the metadata dictionaries and the action records before it
  calls a hook (the source marks them "set by Executor").
\<close>

datatype ('t, 'x, 'a) hook =
    Observe_first "'x sampler"
  | Observe
  | Update pdict bool
  | Force_update pdict
  | Executor_sets 't 't "(string \<times> 'x) list" "(string \<times> 'x) list" "(string \<times> 'a) list"

fun hook_step ::
  "(string list \<Rightarrow> string list) \<Rightarrow> ('t, 'x, 'a) hook \<Rightarrow> ('t, 'x, 'a) store \<Rightarrow> ('t, 'x, 'a) store" where
  "hook_step srt (Observe_first smp) st = on_execution_observe_first srt smp st"
| "hook_step srt Observe st = on_execution_observe st"
| "hook_step srt (Update reply early) st = post (on_execution_update reply early st)"
| "hook_step srt (Force_update reply) st = post (on_execution_force_update reply st)"
| "hook_step srt (Executor_sets ts nts ex nex ai) st =
     st\<lparr>timestep := ts, next_timestep := nts, extras := ex, next_extras := nex, actions_info := ai\<rparr>"

fun run_hooks ::
  "(string list \<Rightarrow> string list) \<Rightarrow> ('t, 'x, 'a) hook list \<Rightarrow> ('t, 'x, 'a) store \<Rightarrow> ('t, 'x, 'a) store" where
  "run_hooks srt [] st = st"
| "run_hooks srt (h # hs) st = run_hooks srt hs (hook_step srt h st)"

fun is_observe_first :: "('t, 'x, 'a) hook \<Rightarrow> bool" where
  "is_observe_first (Observe_first smp) = True"
| "is_observe_first h = False"

text \<open>The metadata an adder call carries under \<^verbatim>\<open>"network_int_keys"\<close>.\<close>

fun forwarded_keys :: "('t, 'x, 'a) adder_call \<Rightarrow> 'x option" where
  "forwarded_keys (Add_first ts ex) = map_of ex ''network_int_keys''"
| "forwarded_keys (Add acts ts ex) = map_of ex ''network_int_keys''"

fun is_add :: "('t, 'x, 'a) adder_call \<Rightarrow> bool" where
  "is_add (Add_first ts ex) = False"
| "is_add (Add acts ts ex) = True"

definition calls_of :: "('t, 'x, 'a) store \<Rightarrow> ('t, 'x, 'a) adder_call list" where
  "calls_of st = (case adder st of None \<Rightarrow> [] | Some calls \<Rightarrow> calls)"

section \<open>Notions the properties are stated with\<close>


text \<open>
  The unresolved calls an operation has sent, the number of unresolved requests of a kind
  (a combined set-then-get counts once, by its group), and the calls an event sends.
\<close>

definition pending :: "origin \<Rightarrow> client \<Rightarrow> rpc list" where
  "pending k c = filter (\<lambda>r. origin r = k \<and> \<not> is_done (status r)) (server c)"

definition outstanding :: "origin \<Rightarrow> client \<Rightarrow> nat" where
  "outstanding k c = length (remdups (map group (pending k c)))"

definition issued :: "event \<Rightarrow> client \<Rightarrow> rpc list" where
  "issued ev c = drop (length (server c)) (server (post (step ev c)))"

text \<open>The handle slot of each kind of request.\<close>

fun slot :: "origin \<Rightarrow> client \<Rightarrow> nat option" where
  "slot Get_async c = get_future c"
| "slot Set_async c = set_future c"
| "slot Set_and_get_async c = map_option fst (set_get_future c)"
| "slot Add_async c = add_future c"
| "slot Blocking c = None"

text \<open>
  The invariant behind the cap on outstanding requests: a call sits at the position its
  group names (the get half of a combined request one later), every unresolved call is the
  one its kind's slot holds, and a combined handle is a pair of neighbours.
\<close>

definition handles_ok :: "client \<Rightarrow> bool" where
  "handles_ok c =
     ((\<forall>i < length (server c).
         group (server c ! i) = i \<or>
         (origin (server c ! i) = Set_and_get_async \<and> i = Suc (group (server c ! i))))
      \<and> (\<forall>i < length (server c).
            is_done (status (server c ! i)) \<or>
            slot (origin (server c ! i)) c = Some (group (server c ! i)))
      \<and> (case set_get_future c of None \<Rightarrow> True | Some (sf, gf) \<Rightarrow> gf = Suc sf))"

text \<open>The merge touches the replica only: the bindings and the objects.\<close>

definition same_protocol :: "client \<Rightarrow> client \<Rightarrow> bool" where
  "same_protocol c c' = (\<exists>ps h. c' = c\<lparr>parameters := ps, heap := h\<rparr>)"

text \<open>A run of \<^verbatim>\<open>get_async\<close> calls, each with what the server does during it.\<close>

definition get_async_calls :: "(pdict \<times> bool) list \<Rightarrow> event list" where
  "get_async_calls envs = map (\<lambda>(reply, early). Get_async_call reply early) envs"

text \<open>
  The call counter after one more call: it stops at the period.
\<close>

definition counted :: "int \<Rightarrow> int \<Rightarrow> int" where
  "counted n period = (if n < period then n + 1 else n)"

text \<open>
  The two halves of \<^verbatim>\<open>get_async\<close>: counting the call and, at the period with an
  empty slot, sending the request; then polling the handle in the slot and merging a reply
  that has arrived.
\<close>

definition get_request :: "pdict \<Rightarrow> bool \<Rightarrow> client \<Rightarrow> client" where
  "get_request reply early c =
     (let c1 = c\<lparr>get_call_counter := counted (get_call_counter c) (update_period c)\<rparr>
      in if get_call_counter c1 \<ge> update_period c1 \<and> get_future c1 = None
         then (async_request reply early c1)
                \<lparr>get_future := Some (length (server c1)), get_call_counter := 0\<rparr>
         else c1)"

definition get_collect :: "client \<Rightarrow> client outcome" where
  "get_collect c =
     (case get_future c of
        None \<Rightarrow> Returned c
      | Some f \<Rightarrow>
          (case handle_status c f of
             Pending \<Rightarrow> Returned c
           | Done r \<Rightarrow>
               (case copy c r of
                  Returned c' \<Rightarrow> Returned (c'\<lparr>get_future := None\<rparr>)
                | Raised e c' \<Rightarrow> Raised e c')))"

text \<open>The calls the asynchronous operations send from a client.\<close>

definition get_rpc :: "client \<Rightarrow> status \<Rightarrow> rpc" where
  "get_rpc c st = \<lparr>request = GetParameters (KeyList (get_keys c)), status = st,
      origin = Get_async, group = length (server c), done_callback = False\<rparr>"

definition set_rpc :: "client \<Rightarrow> pdict \<Rightarrow> rpc" where
  "set_rpc c params = \<lparr>request = SetParameters params,
      status = (if multi_process c then Pending else Done []),
      origin = Set_async, group = length (server c), done_callback = False\<rparr>"

definition add_rpc :: "client \<Rightarrow> (string \<times> int) list \<Rightarrow> rpc" where
  "add_rpc c params = \<lparr>request = AddToParameters params,
      status = (if multi_process c then Pending else Done []),
      origin = Add_async, group = length (server c), done_callback = False\<rparr>"

definition set_get_rpcs :: "client \<Rightarrow> pdict \<Rightarrow> pdict \<Rightarrow> rpc list" where
  "set_get_rpcs c params reply =
     (if multi_process c then
        [\<lparr>request = SetParameters params, status = Pending, origin = Set_and_get_async,
          group = length (server c), done_callback = False\<rparr>,
         \<lparr>request = GetParameters (KeySet (set (get_keys c) - set (set_keys c))),
          status = Pending, origin = Set_and_get_async,
          group = length (server c), done_callback = True\<rparr>]
      else
        [\<lparr>request = SetParameters params, status = Done [], origin = Set_and_get_async,
          group = length (server c), done_callback = False\<rparr>,
         \<lparr>request = GetParameters (KeyList (get_keys c)),
          status = Done reply, origin = Set_and_get_async,
          group = length (server c), done_callback = False\<rparr>])"

fun is_observe :: "('t, 'x, 'a) hook \<Rightarrow> bool" where
  "is_observe Observe = True"
| "is_observe h = False"




text \<open>Clients and a store to try the properties on.\<close>

definition example_client :: "bool \<Rightarrow> int \<Rightarrow> client" where
  "example_client multi period =
     init (\<lambda>ks. ks) (\<lambda>d. d)
       [(''w'', 0), (''layers'', 1), (''steps'', 2)]
       [int64_array [2] [7, 8], PyList [PyOther ''l0'', PyOther ''l1''], int64_array [] [0]]
       multi (Some [''w'', ''layers'']) (Some [''w'']) period []"

definition example_tuple_client :: client where
  "example_tuple_client =
     init (\<lambda>ks. ks) (\<lambda>d. d)
       [(''layers'', 0)]
       [PyTuple [PyOther ''l0'', PyOther ''l1'']]
       False (Some [''layers'']) None 1 []"

definition example_dtype_client :: client where
  "example_dtype_client =
     init (\<lambda>ks. ks) (\<lambda>d. d)
       [(''w'', 0), (''diverged'', 1), (''count'', 2)]
       [NdArray (FloatType 32) [2] [FloatVal 3 (-1), FloatVal (-5) 0],
        NdArray (FloatType 32) [2] [PosInf, NaN],
        NdArray (IntType 32) [2] [IntVal 5, IntVal 6]]
       False (Some [''w'', ''diverged'', ''count'']) None 1 []"

definition example_store :: "(nat, nat, nat) store" where
  "example_store =
     \<lparr> adder = Some [],
       agent_net_keys = [(''agent_0'', ''network_0''), (''agent_1'', ''network_0'')],
       network_int_keys_extras = 0,
       network_sampling_setup = [[''network_0'', ''network_1'']],
       net_keys_to_ids = [(''network_0'', 0), (''network_1'', 1)],
       extras = [],
       next_extras = [],
       timestep = 0,
       next_timestep = 1,
       actions_info = [(''agent_0'', 5), (''agent_1'', 6)],
       executor_parameter_client = Some (example_client False 1) \<rparr>"

definition example_sampler :: "nat sampler" where
  "example_sampler agents setup ids = (42, map (\<lambda>agent. (agent, ''network_1'')) agents)"

section \<open>Properties of the merge procedure\<close>





text \<open>The loop of the tuple branch, from any index on.\<close>

lemma copy_items_upt:
  "n = length ls \<Longrightarrow> k \<le> n \<Longrightarrow> m = n - k \<Longrightarrow>
   copy_items [] key True ts ls [k..<n] =
     (if n \<le> length ts then Returned (take k ls @ drop k (take n ts))
      else if k \<le> length ts then Raised IndexError (take k ls @ drop k ts @ drop (length ts) ls)
      else if k < n then Raised IndexError ls else Returned ls)"
proof (induction m arbitrary: k ls)
  case 0
  then show ?case by auto
next
  case (Suc m)
  then have kn: "k < n" by simp
  then have upt: "[k..<n] = k # [Suc k..<n]" by (simp add: upt_conv_Cons)
  show ?case
  proof (cases "k < length ts")
    case False
    with kn Suc.prems show ?thesis unfolding upt by auto
  next
    case True
    let ?ls = "ls[k := ts ! k]"
    have len: "n = length ?ls" using Suc.prems by simp
    have IH: "copy_items [] key True ts ?ls [Suc k..<n] =
     (if n \<le> length ts then Returned (take (Suc k) ?ls @ drop (Suc k) (take n ts))
      else if Suc k \<le> length ts
        then Raised IndexError (take (Suc k) ?ls @ drop (Suc k) ts @ drop (length ts) ?ls)
      else if Suc k < n then Raised IndexError ?ls else Returned ?ls)"
      using Suc.IH[OF len] Suc.prems kn by simp
    have t1: "take (Suc k) ?ls = take k ls @ [ts ! k]"
      using kn Suc.prems by (simp add: take_Suc_conv_app_nth)
    have t2: "drop k (take n ts) = ts ! k # drop (Suc k) (take n ts)" if "n \<le> length ts"
      using that kn by (metis Cons_nth_drop_Suc length_take min.absorb2 nth_take)
    have t3: "drop k ts = ts ! k # drop (Suc k) ts"
      using True by (simp add: Cons_nth_drop_Suc)
    have t4: "drop (length ts) ?ls = drop (length ts) ls"
      using True by simp
    show ?thesis unfolding upt using True kn IH by (auto simp: t1 t2 t3 t4)
  qed
qed

lemma copy_items_immutable:
  "copy_items [] key False ts ls (i # rest) =
     (if i < length ts then Raised TypeError ls else Raised IndexError ls)"
  by simp

text \<open>
  Claim C10. With no device placement, the merge of a tuple assigns at the indices of the
  local sequence, one after the other. Into a local list: when the response has at least
  as many elements, the object of the list holds the first elements of the response
  afterwards and the further ones are dropped without notice; when it has fewer, the merge
  raises IndexError and the object then holds the elements of the response followed by the
  old elements from that index on. Into a local tuple nothing can be assigned: the merge
  returns normally only when the local tuple is empty, raises IndexError when the response
  is empty, and raises TypeError at the first index otherwise, whichever of the two is
  longer; the client is then as it was.
\<close>

theorem copy_tuple_local_indices:
  assumes "devices c = []" and "local_object c key = Some (a, v)"
  shows "(v = PyList ls \<longrightarrow>
            a < length (heap c)
          \<and> (length ls \<le> length ts \<longrightarrow>
               copy_entry c key (PyTuple ts) =
                 Returned (c\<lparr>heap := (heap c)[a := PyList (take (length ls) ts)]\<rparr>)
             \<and> heap (post (copy_entry c key (PyTuple ts))) ! a = PyList (take (length ls) ts))
          \<and> (length ts < length ls \<longrightarrow>
               copy_entry c key (PyTuple ts) =
                 Raised IndexError (c\<lparr>heap := (heap c)[a := PyList (ts @ drop (length ts) ls)]\<rparr>)
             \<and> heap (post (copy_entry c key (PyTuple ts))) ! a =
                 PyList (ts @ drop (length ts) ls)))
       \<and> (v = PyTuple ls \<longrightarrow>
            copy_entry c key (PyTuple ts) =
              (if ls = [] then Returned c
               else if ts = [] then Raised IndexError c
               else Raised TypeError c))"
proof -
  have bound: "a < length (heap c)"
    using assms(2) by (auto simp: local_object_def split: option.splits if_splits)
  have run: "copy_entry c key (PyTuple ts) =
      (if length ls \<le> length ts
       then Returned (c\<lparr>heap := (heap c)[a := PyList (take (length ls) ts)]\<rparr>)
       else Raised IndexError (c\<lparr>heap := (heap c)[a := PyList (ts @ drop (length ts) ls)]\<rparr>))"
    if "v = PyList ls"
    using that assms copy_items_upt[of "length ls" ls 0 "length ls" key ts]
    by (auto simp: copy_tuple_def mutate_def)
  have lst: "a < length (heap c)
          \<and> (length ls \<le> length ts \<longrightarrow>
               copy_entry c key (PyTuple ts) =
                 Returned (c\<lparr>heap := (heap c)[a := PyList (take (length ls) ts)]\<rparr>)
             \<and> heap (post (copy_entry c key (PyTuple ts))) ! a = PyList (take (length ls) ts))
          \<and> (length ts < length ls \<longrightarrow>
               copy_entry c key (PyTuple ts) =
                 Raised IndexError (c\<lparr>heap := (heap c)[a := PyList (ts @ drop (length ts) ls)]\<rparr>)
             \<and> heap (post (copy_entry c key (PyTuple ts))) ! a =
                 PyList (ts @ drop (length ts) ls))"
    if "v = PyList ls"
    using run[OF that] bound by simp
  have tup: "copy_entry c key (PyTuple ts) =
              (if ls = [] then Returned c
               else if ts = [] then Raised IndexError c
               else Raised TypeError c)"
    if "v = PyTuple ls"
  proof (cases ls)
    case Nil
    then show ?thesis using that assms by (simp add: copy_tuple_def)
  next
    case (Cons x xs)
    then have upt: "[0..<length ls] = 0 # [Suc 0..<length ls]" by (subst upt_rec) simp
    have "copy_items [] key False ts ls [0..<length ls] =
            (if 0 < length ts then Raised TypeError ls else Raised IndexError ls)"
      unfolding upt by (rule copy_items_immutable)
    then show ?thesis using that assms Cons by (simp add: copy_tuple_def)
  qed
  show ?thesis using lst tup by blast
qed

theorem copy_tuple_local_indices_witness:
  "heap (example_client False 1) ! 1 = PyList [PyOther ''l0'', PyOther ''l1'']
   \<and> raised (copy_entry (example_client False 1) ''layers''
       (PyTuple [PyOther ''n0'', PyOther ''n1'', PyOther ''n2''])) = None
   \<and> heap (post (copy_entry (example_client False 1) ''layers''
       (PyTuple [PyOther ''n0'', PyOther ''n1'', PyOther ''n2'']))) ! 1 =
     PyList [PyOther ''n0'', PyOther ''n1'']
   \<and> raised (copy_entry (example_client False 1) ''layers'' (PyTuple [PyOther ''n0''])) =
     Some IndexError
   \<and> heap (post (copy_entry (example_client False 1) ''layers'' (PyTuple [PyOther ''n0'']))) ! 1 =
     PyList [PyOther ''n0'', PyOther ''l1'']
   \<and> copy_entry example_tuple_client ''layers'' (PyTuple []) =
     Raised IndexError example_tuple_client"
proof -
  have d: "devices (example_client False 1) = []"
    by (simp add: example_client_def init_def)
  have l: "local_object (example_client False 1) ''layers'' =
             Some (1, PyList [PyOther ''l0'', PyOther ''l1''])"
    by (simp add: example_client_def init_def local_object_def)
  have d': "devices example_tuple_client = []"
    by (simp add: example_tuple_client_def init_def)
  have l': "local_object example_tuple_client ''layers'' =
             Some (0, PyTuple [PyOther ''l0'', PyOther ''l1''])"
    by (simp add: example_tuple_client_def init_def local_object_def)
  have h: "heap (example_client False 1) ! 1 = PyList [PyOther ''l0'', PyOther ''l1'']"
    by (simp add: example_client_def init_def)
  show ?thesis
    using copy_tuple_local_indices [OF d l,
        of "[PyOther ''l0'', PyOther ''l1'']" "[PyOther ''n0'', PyOther ''n1'', PyOther ''n2'']"]
      copy_tuple_local_indices [OF d l, of "[PyOther ''l0'', PyOther ''l1'']" "[PyOther ''n0'']"]
      copy_tuple_local_indices [OF d' l', of "[PyOther ''l0'', PyOther ''l1'']" "[]"]
      h
    by simp
qed

text \<open>
  A response that is longer than a local tuple is not cut to the length of the local
  tuple: the first assignment raises TypeError.
\<close>

theorem copy_tuple_into_local_tuple_raises:
  "heap example_tuple_client ! 0 = PyTuple [PyOther ''l0'', PyOther ''l1'']
   \<and> copy_entry example_tuple_client ''layers''
       (PyTuple [PyOther ''n0'', PyOther ''n1'', PyOther ''n2'']) =
     Raised TypeError example_tuple_client"
  by (simp add: example_tuple_client_def init_def copy_tuple_def local_object_def
      numeral_2_eq_2)

section \<open>The merge of an array\<close>





















text \<open>
  An infinity or a NaN in the local array is not zeroed by the product, and the sum keeps
  the NaN: the hypothesis on the local entries is needed.
\<close>

lemma copy_ndarray_keeps_nan:
  "heap example_dtype_client ! 1 = NdArray (FloatType 32) [2] [PosInf, NaN]
   \<and> raised (copy_entry example_dtype_client ''diverged''
       (NdArray (FloatType 32) [2] [FloatVal 1 0, FloatVal 1 1])) = None
   \<and> heap (post (copy_entry example_dtype_client ''diverged''
       (NdArray (FloatType 32) [2] [FloatVal 1 0, FloatVal 1 1]))) ! 1 =
       NdArray (FloatType 32) [2] [NaN, NaN]
   \<and> heap (post (copy_entry example_dtype_client ''w''
       (NdArray (FloatType 32) [2] [FloatVal 1 0, NegInf]))) ! 0 =
       NdArray (FloatType 32) [2] [FloatVal 1 0, NegInf]"
  by (simp add: example_dtype_client_def init_def copy_ndarray_def local_object_def mutate_def
      imul_zero_def iadd_def broadcast_to_def numeral_2_eq_2)

text \<open>
  A new value of another dtype is cast into the dtype of the local array: an integer wraps
  around at the width of the local array, a floating-point value is refused by an integer
  array, which then stays zeroed, and a floating-point value of another width would be
  rounded. The hypothesis on the dtype of the new value is needed.
\<close>

lemma copy_ndarray_casts:
  "heap example_dtype_client ! 2 = NdArray (IntType 32) [2] [IntVal 5, IntVal 6]
   \<and> raised (copy_entry example_dtype_client ''count'' (int64_array [2] [2147483648, 1])) = None
   \<and> heap (post (copy_entry example_dtype_client ''count''
       (int64_array [2] [2147483648, 1]))) ! 2 =
       NdArray (IntType 32) [2] [IntVal (- 2147483648), IntVal 1]
   \<and> raised (copy_entry example_dtype_client ''count''
       (NdArray (FloatType 64) [2] [FloatVal 1 0, FloatVal 1 1])) = Some TypeError
   \<and> heap (post (copy_entry example_dtype_client ''count''
       (NdArray (FloatType 64) [2] [FloatVal 1 0, FloatVal 1 1]))) ! 2 =
       NdArray (IntType 32) [2] [IntVal 0, IntVal 0]
   \<and> raised (copy_entry example_dtype_client ''w''
       (NdArray (FloatType 64) [2] [FloatVal 1 0, FloatVal 1 1])) = Some Unmodelled"
  by (simp add: example_dtype_client_def init_def copy_ndarray_def local_object_def mutate_def
      imul_zero_def iadd_def broadcast_to_def wrap_def numeral_2_eq_2)

section \<open>The merge leaves the protocol state alone\<close>

lemma same_protocol_refl: "same_protocol c c"
proof -
  have "c = c\<lparr>parameters := parameters c, heap := heap c\<rparr>" by simp
  then show ?thesis unfolding same_protocol_def by blast
qed

lemma same_protocol_trans:
  assumes "same_protocol c c'" and "same_protocol c' c''"
  shows "same_protocol c c''"
proof -
  obtain ps h where "c' = c\<lparr>parameters := ps, heap := h\<rparr>"
    using assms(1) unfolding same_protocol_def by blast
  moreover obtain ps' h' where "c'' = c'\<lparr>parameters := ps', heap := h'\<rparr>"
    using assms(2) unfolding same_protocol_def by blast
  ultimately have "c'' = c\<lparr>parameters := ps', heap := h'\<rparr>" by simp
  then show ?thesis unfolding same_protocol_def by blast
qed

lemma same_protocol_mutate: "same_protocol c (mutate a v c)"
proof -
  have "mutate a v c = c\<lparr>parameters := parameters c, heap := (heap c)[a := v]\<rparr>"
    by (simp add: mutate_def)
  then show ?thesis unfolding same_protocol_def by blast
qed

lemma same_protocol_bind_new: "same_protocol c (bind_new key v c)"
  unfolding same_protocol_def bind_new_def by blast

lemma same_protocol_fields:
  assumes "same_protocol c c'"
  shows "server c' = server c" "get_future c' = get_future c" "set_future c' = set_future c"
    "set_get_future c' = set_get_future c" "add_future c' = add_future c"
    "get_call_counter c' = get_call_counter c" "set_call_counter c' = set_call_counter c"
    "set_get_call_counter c' = set_get_call_counter c" "update_period c' = update_period c"
    "multi_process c' = multi_process c" "async_add_buffer c' = async_add_buffer c"
    "get_keys c' = get_keys c" "set_keys c' = set_keys c" "all_keys c' = all_keys c"
    "devices c' = devices c"
  using assms unfolding same_protocol_def by auto

lemma same_protocol_at_local_dict: "same_protocol c (post (at_local_dict c key f))"
proof (cases "local_object c key")
  case None
  then show ?thesis by (simp add: same_protocol_refl)
next
  case (Some p)
  obtain a v where p: "p = (a, v)" by (cases p)
  show ?thesis using Some p
    by (cases v) (auto simp: same_protocol_refl same_protocol_mutate split: outcome.splits)
qed

lemma same_protocol_copy_dict: "same_protocol c (post (copy_dict c key d))"
proof (induction d arbitrary: c)
  case Nil
  then show ?case by (simp add: same_protocol_refl)
next
  case (Cons e d)
  obtain type1_key v where e: "e = (type1_key, v)" by (cases e)
  let ?r = "at_local_dict c key (\<lambda>ld. copy_type1 (devices c \<noteq> []) ld type1_key v)"
  have step: "same_protocol c (post ?r)" by (rule same_protocol_at_local_dict)
  show ?case
  proof (cases ?r)
    case (Returned c')
    with step have "same_protocol c c'" by simp
    moreover have "same_protocol c' (post (copy_dict c' key d))" by (rule Cons.IH)
    ultimately show ?thesis using Returned e
      by (simp del: at_local_dict.simps) (rule same_protocol_trans)
  next
    case (Raised err c')
    with step e show ?thesis by (simp del: at_local_dict.simps)
  qed
qed

lemma same_protocol_add_in_place:
  "same_protocol c (post (add_in_place c a dt shp xs dt' sl))"
  by (cases sl) (auto simp: same_protocol_refl same_protocol_mutate split: sum.splits)

lemma same_protocol_copy_ndarray: "same_protocol c (post (copy_ndarray c key dt shp xs))"
proof (cases "devices c \<noteq> []")
  case True
  then show ?thesis
    by (cases "(c, key, NdArray dt shp xs, map_of (devices c) key)" rule: put_array.cases)
       (auto simp: copy_ndarray_def same_protocol_refl same_protocol_bind_new)
next
  case False
  show ?thesis
  proof (cases "local_object c key")
    case None
    with False show ?thesis by (simp add: copy_ndarray_def same_protocol_refl)
  next
    case (Some p)
    obtain a v where p: "p = (a, v)" by (cases p)
    have arr: "same_protocol c
        (post (add_in_place (mutate a (NdArray ldt lshp (imul_zero lxs)) c) a ldt lshp
                 (imul_zero lxs) dt sl))"
      for ldt lshp lxs sl
      using same_protocol_mutate same_protocol_add_in_place by (rule same_protocol_trans)
    show ?thesis using False Some p
      by (cases v)
         (simp_all add: copy_ndarray_def Let_def arr same_protocol_refl del: add_in_place.simps)
  qed
qed

lemma same_protocol_copy_tuple: "same_protocol c (post (copy_tuple c key ts))"
  by (cases "(c, key, ts, local_object c key)" rule: merge_tuple.cases)
     (auto simp: copy_tuple_def same_protocol_refl same_protocol_mutate split: outcome.splits)

lemma same_protocol_copy_entry: "same_protocol c (post (copy_entry c key v))"
  by (cases v)
     (simp_all add: same_protocol_copy_dict same_protocol_copy_ndarray same_protocol_copy_tuple
        same_protocol_refl)

lemma same_protocol_copy: "same_protocol c (post (copy c r))"
proof (induction r arbitrary: c)
  case Nil
  then show ?case by (simp add: same_protocol_refl)
next
  case (Cons e r)
  obtain key v where e: "e = (key, v)" by (cases e)
  have step: "same_protocol c (post (copy_entry c key v))" by (rule same_protocol_copy_entry)
  show ?case
  proof (cases "copy_entry c key v")
    case (Returned c')
    with step have "same_protocol c c'" by simp
    moreover have "same_protocol c' (post (copy c' r))" by (rule Cons.IH)
    ultimately show ?thesis using Returned e by simp (rule same_protocol_trans)
  next
    case (Raised err c')
    with step e show ?thesis by simp
  qed
qed

section \<open>Periodic gets\<close>

lemma get_async_below:
  assumes "get_future c = None" and "get_call_counter c + 1 < update_period c"
  shows "get_async reply early c = Returned (c\<lparr>get_call_counter := get_call_counter c + 1\<rparr>)"
  using assms by (simp add: get_async_def Let_def)

lemma run_get_async_below:
  "get_future c = None \<Longrightarrow> get_call_counter c + int (length envs) < update_period c \<Longrightarrow>
   run (get_async_calls envs) c = c\<lparr>get_call_counter := get_call_counter c + int (length envs)\<rparr>"
proof (induction envs arbitrary: c)
  case Nil
  then show ?case by (simp add: get_async_calls_def)
next
  case (Cons e envs)
  obtain reply early where e: "e = (reply, early)" by (cases e)
  let ?c = "c\<lparr>get_call_counter := get_call_counter c + 1\<rparr>"
  have one: "get_async reply early c = Returned ?c"
    using Cons.prems by (intro get_async_below) simp_all
  have "run (get_async_calls envs) ?c =
        ?c\<lparr>get_call_counter := get_call_counter ?c + int (length envs)\<rparr>"
    using Cons.prems by (intro Cons.IH) simp_all
  then show ?case using one e
    by (simp add: get_async_calls_def add.assoc)
qed

lemma get_async_at_period:
  assumes "get_future c = None" and "get_call_counter c + 1 = update_period c"
    and "server c = []"
  shows "map request (server (post (get_async reply early c))) = [GetParameters (KeyList (get_keys c))]
       \<and> get_call_counter (post (get_async reply early c)) = 0"
proof -
  let ?c1 = "c\<lparr>get_call_counter := get_call_counter c + 1\<rparr>"
  let ?c2 = "(async_request reply early ?c1)\<lparr>get_future := Some (length (server ?c1)), get_call_counter := 0\<rparr>"
  have srv: "map request (server ?c2) = [GetParameters (KeyList (get_keys c))]"
    using assms(3) by (simp add: async_request_def remote_future_def done_future_def send_def)
  have cnt: "get_call_counter ?c2 = 0" by simp
  have fr: "same_protocol ?c2 (post (copy ?c2 r))" for r by (rule same_protocol_copy)
  have unfold: "get_async reply early c =
      (if poll ?c2 (get_future ?c2)
       then (case copy ?c2 (result (handle_status ?c2 0)) of
               Returned c3 \<Rightarrow> Returned (c3\<lparr>get_future := None\<rparr>)
             | Raised e c3 \<Rightarrow> Raised e c3)
       else Returned ?c2)"
    using assms by (simp add: get_async_def Let_def)
  show ?thesis
  proof (cases "poll ?c2 (get_future ?c2)")
    case False
    with unfold srv cnt show ?thesis by simp
  next
    case True
    let ?r = "result (handle_status ?c2 0)"
    have s: "server (post (copy ?c2 ?r)) = server ?c2"
      and g: "get_call_counter (post (copy ?c2 ?r)) = get_call_counter ?c2"
      using same_protocol_fields[OF fr[of ?r]] by simp_all
    show ?thesis
    proof (cases "copy ?c2 ?r")
      case (Returned c3)
      with True unfold s g srv cnt show ?thesis by simp
    next
      case (Raised e c3)
      with True unfold s g srv cnt show ?thesis by simp
    qed
  qed
qed

text \<open>
  Claim C3. On a freshly constructed client with update period \<open>period\<close>, fewer than
  \<open>period\<close> calls of \<^verbatim>\<open>get_async\<close> send nothing to the server (and count the
  calls); when \<open>period - 1\<close> calls have been made, the next call sends exactly one get
  request, for the get keys, and leaves the call counter at 0. This holds whatever the
  server does during the calls, in both modes.
\<close>

theorem get_async_periodic:
  "(int (length envs) < period \<longrightarrow>
      server (run (get_async_calls envs)
        (init srt jfd params objs multi gkeys skeys period devs)) = []
      \<and> get_call_counter (run (get_async_calls envs)
        (init srt jfd params objs multi gkeys skeys period devs)) = int (length envs))
   \<and> (int (length envs) + 1 = period \<longrightarrow>
      map request (server (post (get_async reply early (run (get_async_calls envs)
        (init srt jfd params objs multi gkeys skeys period devs))))) =
        [GetParameters (KeyList (case gkeys of None \<Rightarrow> [] | Some ks \<Rightarrow> ks))]
      \<and> get_call_counter (post (get_async reply early (run (get_async_calls envs)
        (init srt jfd params objs multi gkeys skeys period devs)))) = 0)"
proof -
  let ?c0 = "init srt jfd params objs multi gkeys skeys period devs"
  have f0: "get_future ?c0 = None" "get_call_counter ?c0 = 0" "update_period ?c0 = period"
    "server ?c0 = []" "get_keys ?c0 = (case gkeys of None \<Rightarrow> [] | Some ks \<Rightarrow> ks)"
    by (simp_all add: init_def)
  have below: "run (get_async_calls envs) ?c0 = ?c0\<lparr>get_call_counter := int (length envs)\<rparr>"
    if "int (length envs) < period"
    using run_get_async_below[of ?c0 envs] that f0 by simp
  have a: "server (run (get_async_calls envs) ?c0) = []
      \<and> get_call_counter (run (get_async_calls envs) ?c0) = int (length envs)"
    if "int (length envs) < period"
    using below[OF that] f0 by simp
  have b: "map request (server (post (get_async reply early (run (get_async_calls envs) ?c0)))) =
        [GetParameters (KeyList (case gkeys of None \<Rightarrow> [] | Some ks \<Rightarrow> ks))]
      \<and> get_call_counter (post (get_async reply early (run (get_async_calls envs) ?c0))) = 0"
    if p: "int (length envs) + 1 = period"
  proof -
    from p have lt: "int (length envs) < period" by simp
    let ?c = "?c0\<lparr>get_call_counter := int (length envs)\<rparr>"
    have "get_future ?c = None" "get_call_counter ?c + 1 = update_period ?c" "server ?c = []"
      using f0 p by simp_all
    from get_async_at_period[OF this, of reply early] show ?thesis
      using below[OF lt] f0 by simp
  qed
  show ?thesis using a b by blast
qed

theorem get_async_periodic_witness:
  "server (run (get_async_calls [([], False), ([], False)]) (example_client True 3)) = []
   \<and> map request (server (post (get_async [] False
         (run (get_async_calls [([], False), ([], False)]) (example_client True 3))))) =
       [GetParameters (KeyList [''w'', ''layers''])]
   \<and> get_call_counter (post (get_async [] False
         (run (get_async_calls [([], False), ([], False)]) (example_client True 3)))) = 0"
  using get_async_periodic [where envs = "[([], False), ([], False)]" and period = 3
      and srt = "\<lambda>ks. ks" and jfd = "\<lambda>d. d"
      and params = "[(''w'', 0), (''layers'', 1), (''steps'', 2)]"
      and objs = "[int64_array [2] [7, 8], PyList [PyOther ''l0'', PyOther ''l1''], int64_array [] [0]]"
      and multi = True and gkeys = "Some [''w'', ''layers'']" and skeys = "Some [''w'']"
      and devs = "[]" and reply = "[]" and early = False]
  by (simp add: example_client_def)

section \<open>At most one outstanding request of each kind\<close>

lemma handles_ok_same:
  assumes "server c' = server c" "get_future c' = get_future c" "set_future c' = set_future c"
    "set_get_future c' = set_get_future c" "add_future c' = add_future c"
  shows "handles_ok c' = handles_ok c"
proof -
  have "slot k c' = slot k c" for k using assms by (cases k) simp_all
  then show ?thesis using assms by (simp add: handles_ok_def)
qed

lemma handles_ok_same_protocol: "same_protocol c c' \<Longrightarrow> handles_ok c' = handles_ok c"
  by (rule handles_ok_same) (simp_all add: same_protocol_fields)

lemma handles_ok_issue:
  assumes ok: "handles_ok c"
    and none: "slot k c = None"
    and srv: "server c' = server c @ [r]"
    and r: "origin r = k" "group r = length (server c)"
    and new: "slot k c' = Some (length (server c))"
    and others: "\<And>k'. k' \<noteq> k \<Longrightarrow> slot k' c' = slot k' c"
    and sg: "set_get_future c' = set_get_future c"
  shows "handles_ok c'"
  unfolding handles_ok_def
proof (intro conjI allI impI)
  fix i assume i: "i < length (server c')"
  show "group (server c' ! i) = i \<or>
        (origin (server c' ! i) = Set_and_get_async \<and> i = Suc (group (server c' ! i)))"
    using ok i srv r by (cases "i < length (server c)") (auto simp: handles_ok_def nth_append)
next
  fix i assume i: "i < length (server c')"
  show "is_done (status (server c' ! i)) \<or>
        slot (origin (server c' ! i)) c' = Some (group (server c' ! i))"
  proof (cases "i < length (server c)")
    case True
    then have old: "is_done (status (server c ! i)) \<or>
        slot (origin (server c ! i)) c = Some (group (server c ! i))"
      using ok by (simp add: handles_ok_def)
    show ?thesis
    proof (cases "origin (server c ! i) = k")
      case True
      with old none have "is_done (status (server c ! i))" by simp
      then show ?thesis using \<open>i < length (server c)\<close> srv by (simp add: nth_append)
    next
      case False
      with old others[of "origin (server c ! i)"] show ?thesis
        using \<open>i < length (server c)\<close> srv by (auto simp: nth_append)
    qed
  next
    case False
    with i srv have "i = length (server c)" by simp
    then show ?thesis using srv r new by (simp add: nth_append)
  qed
next
  show "case set_get_future c' of None \<Rightarrow> True | Some (sf, gf) \<Rightarrow> gf = Suc sf"
    using ok sg by (simp add: handles_ok_def)
qed

lemma handles_ok_issue_pair:
  assumes ok: "handles_ok c"
    and none: "set_get_future c = None"
    and srv: "server c' = server c @ [r1, r2]"
    and r: "origin r1 = Set_and_get_async" "group r1 = length (server c)"
           "origin r2 = Set_and_get_async" "group r2 = length (server c)"
    and new: "set_get_future c' = Some (length (server c), Suc (length (server c)))"
    and others: "get_future c' = get_future c" "set_future c' = set_future c"
                "add_future c' = add_future c"
  shows "handles_ok c'"
  unfolding handles_ok_def
proof (intro conjI allI impI)
  fix i assume i: "i < length (server c')"
  show "group (server c' ! i) = i \<or>
        (origin (server c' ! i) = Set_and_get_async \<and> i = Suc (group (server c' ! i)))"
    using ok i srv r
    by (cases "i < length (server c)")
       (auto simp: handles_ok_def nth_append nth_Cons less_Suc_eq split: nat.splits)
next
  fix i assume i: "i < length (server c')"
  show "is_done (status (server c' ! i)) \<or>
        slot (origin (server c' ! i)) c' = Some (group (server c' ! i))"
  proof (cases "i < length (server c)")
    case True
    then have old: "is_done (status (server c ! i)) \<or>
        slot (origin (server c ! i)) c = Some (group (server c ! i))"
      using ok by (simp add: handles_ok_def)
    have same: "slot k c' = slot k c" if "k \<noteq> Set_and_get_async" for k
      using that others by (cases k) simp_all
    show ?thesis
    proof (cases "origin (server c ! i) = Set_and_get_async")
      case True
      with old none have "is_done (status (server c ! i))" by simp
      then show ?thesis using \<open>i < length (server c)\<close> srv by (simp add: nth_append)
    next
      case False
      with old same show ?thesis
        using \<open>i < length (server c)\<close> srv by (auto simp: nth_append)
    qed
  next
    case False
    with i srv have "i = length (server c) \<or> i = Suc (length (server c))" by auto
    then show ?thesis using srv r new by (auto simp: nth_append)
  qed
next
  show "case set_get_future c' of None \<Rightarrow> True | Some (sf, gf) \<Rightarrow> gf = Suc sf"
    using new by simp
qed

lemma handles_ok_append_done:
  assumes ok: "handles_ok c"
    and srv: "server c' = server c @ rs"
    and rs: "\<And>j. j < length rs \<Longrightarrow> is_done (status (rs ! j)) \<and>
               (group (rs ! j) = length (server c) + j \<or>
                (origin (rs ! j) = Set_and_get_async \<and> length (server c) + j = Suc (group (rs ! j))))"
    and slots: "get_future c' = get_future c" "set_future c' = set_future c"
               "set_get_future c' = set_get_future c" "add_future c' = add_future c"
  shows "handles_ok c'"
proof -
  have same: "slot k c' = slot k c" for k using slots by (cases k) simp_all
  show ?thesis
    unfolding handles_ok_def
  proof (intro conjI allI impI)
    fix i assume i: "i < length (server c')"
    show "group (server c' ! i) = i \<or>
          (origin (server c' ! i) = Set_and_get_async \<and> i = Suc (group (server c' ! i)))"
    proof (cases "i < length (server c)")
      case True
      then show ?thesis using ok srv by (simp add: handles_ok_def nth_append)
    next
      case False
      then have "i - length (server c) < length rs" using i srv by simp
      from rs[OF this] False show ?thesis using srv by (auto simp: nth_append)
    qed
  next
    fix i assume i: "i < length (server c')"
    show "is_done (status (server c' ! i)) \<or>
          slot (origin (server c' ! i)) c' = Some (group (server c' ! i))"
    proof (cases "i < length (server c)")
      case True
      then show ?thesis using ok srv same by (simp add: handles_ok_def nth_append)
    next
      case False
      then have "i - length (server c) < length rs" using i srv by simp
      from rs[OF this] False show ?thesis using srv by (auto simp: nth_append)
    qed
  next
    show "case set_get_future c' of None \<Rightarrow> True | Some (sf, gf) \<Rightarrow> gf = Suc sf"
      using ok slots by (simp add: handles_ok_def)
  qed
qed

text \<open>No unresolved call of a kind whose slot is empty, or whose handle is done.\<close>

lemma unresolved_in_slot:
  assumes "handles_ok c" and "i < length (server c)" and "\<not> is_done (status (server c ! i))"
  shows "slot (origin (server c ! i)) c = Some (group (server c ! i))"
    and "group (server c ! i) = i \<or>
         (origin (server c ! i) = Set_and_get_async \<and> i = Suc (group (server c ! i)))"
  using assms by (auto simp: handles_ok_def)

lemma resolved_if_slot_empty:
  assumes "handles_ok c" and "slot k c = None" and "i < length (server c)"
    and "origin (server c ! i) = k"
  shows "is_done (status (server c ! i))"
  using unresolved_in_slot(1)[OF assms(1,3)] assms(2,4) by auto

lemma resolved_if_handle_done:
  assumes ok: "handles_ok c" and k: "k \<noteq> Set_and_get_async" and s: "slot k c = Some f"
    and d: "is_done (handle_status c f)"
    and i: "i < length (server c)" "origin (server c ! i) = k"
  shows "is_done (status (server c ! i))"
proof (rule ccontr)
  assume n: "\<not> is_done (status (server c ! i))"
  from unresolved_in_slot[OF ok i(1) n] i(2) s k have "i = f" by auto
  with d i(1) n show False by (simp add: handle_status_def)
qed

lemma resolved_if_all_done:
  assumes ok: "handles_ok c" and d: "all_done c (set_get_future c)"
    and i: "i < length (server c)" "origin (server c ! i) = Set_and_get_async"
  shows "is_done (status (server c ! i))"
proof (rule ccontr)
  assume n: "\<not> is_done (status (server c ! i))"
  from d obtain sf gf where sg: "set_get_future c = Some (sf, gf)"
    by (cases "set_get_future c") auto
  with ok have gf: "gf = Suc sf" by (simp add: handles_ok_def)
  from unresolved_in_slot[OF ok i(1) n] i(2) sg have "i = sf \<or> i = Suc sf" by auto
  with d sg gf i(1) n show False by (auto simp: handle_status_def)
qed

lemma handles_ok_clear:
  assumes ok: "handles_ok c"
    and res: "\<And>i. i < length (server c) \<Longrightarrow> origin (server c ! i) = k \<Longrightarrow>
                is_done (status (server c ! i))"
    and srv: "server c' = server c"
    and others: "\<And>k'. k' \<noteq> k \<Longrightarrow> slot k' c' = slot k' c"
    and sg: "set_get_future c' = set_get_future c \<or> set_get_future c' = None"
  shows "handles_ok c'"
  unfolding handles_ok_def
proof (intro conjI allI impI)
  fix i assume i: "i < length (server c')"
  then show "group (server c' ! i) = i \<or>
        (origin (server c' ! i) = Set_and_get_async \<and> i = Suc (group (server c' ! i)))"
    using ok srv by (simp add: handles_ok_def)
next
  fix i assume i: "i < length (server c')"
  show "is_done (status (server c' ! i)) \<or>
        slot (origin (server c' ! i)) c' = Some (group (server c' ! i))"
  proof (cases "origin (server c ! i) = k")
    case True
    with res i srv show ?thesis by simp
  next
    case False
    with others[OF False] ok i srv show ?thesis by (auto simp: handles_ok_def)
  qed
next
  show "case set_get_future c' of None \<Rightarrow> True | Some (sf, gf) \<Rightarrow> gf = Suc sf"
    using ok sg by (auto simp: handles_ok_def)
qed

lemma handles_ok_complete:
  assumes ok: "handles_ok c"
  shows "handles_ok (c\<lparr>server := (server c)[i := (server c ! i)\<lparr>status := Done reply\<rparr>]\<rparr>)"
proof -
  let ?c = "c\<lparr>server := (server c)[i := (server c ! i)\<lparr>status := Done reply\<rparr>]\<rparr>"
  have same: "slot k ?c = slot k c" for k by (cases k) simp_all
  have nth: "origin (server ?c ! j) = origin (server c ! j) \<and>
             group (server ?c ! j) = group (server c ! j) \<and>
             (is_done (status (server c ! j)) \<longrightarrow> is_done (status (server ?c ! j)))"
    if "j < length (server c)" for j
    using that by (cases "j = i") simp_all
  show ?thesis using ok nth unfolding handles_ok_def same
    by (simp del: client.simps) blast
qed

lemma get_async_halves: "get_async reply early c = get_collect (get_request reply early c)"
  by (auto simp: get_async_def get_request_def get_collect_def counted_def Let_def
           split: option.splits status.splits)

lemma pending_empty:
  "(pending k c = []) =
   (\<forall>i < length (server c). origin (server c ! i) = k \<longrightarrow> is_done (status (server c ! i)))"
proof
  assume e: "pending k c = []"
  show "\<forall>i < length (server c). origin (server c ! i) = k \<longrightarrow> is_done (status (server c ! i))"
  proof (intro allI impI)
    fix i assume "i < length (server c)" "origin (server c ! i) = k"
    then have "server c ! i \<in> set (server c)" by simp
    with e \<open>origin (server c ! i) = k\<close> show "is_done (status (server c ! i))"
      unfolding pending_def filter_empty_conv by blast
  qed
next
  assume "\<forall>i < length (server c). origin (server c ! i) = k \<longrightarrow> is_done (status (server c ! i))"
  then show "pending k c = []"
    unfolding pending_def filter_empty_conv by (metis in_set_conv_nth)
qed

lemma server_async_request:
  "server (async_request reply early c) =
     server c @ [get_rpc c (if multi_process c \<and> \<not> early then Pending else Done reply)]"
  by (simp add: async_request_def remote_future_def done_future_def send_def get_rpc_def)

lemma slots_async_request:
  "get_future (async_request reply early c) = get_future c"
  "set_future (async_request reply early c) = set_future c"
  "set_get_future (async_request reply early c) = set_get_future c"
  "add_future (async_request reply early c) = add_future c"
  by (simp_all add: async_request_def remote_future_def done_future_def send_def)

lemma get_request_ok:
  assumes "handles_ok c"
  shows "handles_ok (get_request reply early c)"
proof -
  let ?c1 = "c\<lparr>get_call_counter := counted (get_call_counter c) (update_period c)\<rparr>"
  have ok1: "handles_ok ?c1" using assms by (subst handles_ok_same[of ?c1 c]) simp_all
  show ?thesis
  proof (cases "get_call_counter ?c1 \<ge> update_period ?c1 \<and> get_future ?c1 = None")
    case False
    then show ?thesis using ok1 by (auto simp: get_request_def Let_def)
  next
    case True
    let ?c2 = "(async_request reply early ?c1)
                \<lparr>get_future := Some (length (server ?c1)), get_call_counter := 0\<rparr>"
    have "handles_ok ?c2"
    proof (rule handles_ok_issue[OF ok1, where k = Get_async])
      show "slot Get_async ?c1 = None" using True by simp
      show "server ?c2 = server ?c1 @ [get_rpc ?c1 (if multi_process ?c1 \<and> \<not> early then Pending else Done reply)]"
        by (simp add: server_async_request)
      show "origin (get_rpc ?c1 (if multi_process ?c1 \<and> \<not> early then Pending else Done reply)) = Get_async"
        by (simp add: get_rpc_def)
      show "group (get_rpc ?c1 (if multi_process ?c1 \<and> \<not> early then Pending else Done reply)) = length (server ?c1)"
        by (simp add: get_rpc_def)
      show "slot Get_async ?c2 = Some (length (server ?c1))" by simp
      show "slot k' ?c2 = slot k' ?c1" if "k' \<noteq> Get_async" for k'
        using that by (cases k') (simp_all add: slots_async_request)
      show "set_get_future ?c2 = set_get_future ?c1" by (simp add: slots_async_request)
    qed
    then show ?thesis using True by (simp add: get_request_def Let_def)
  qed
qed

lemma get_collect_ok:
  assumes "handles_ok c"
  shows "handles_ok (post (get_collect c))"
proof (cases "get_future c")
  case None
  then show ?thesis using assms by (simp add: get_collect_def)
next
  case (Some f)
  show ?thesis
  proof (cases "handle_status c f")
    case Pending
    with Some assms show ?thesis by (simp add: get_collect_def)
  next
    case (Done r)
    have fr: "same_protocol c (post (copy c r))" by (rule same_protocol_copy)
    then have ok3: "handles_ok (post (copy c r))" using assms by (simp add: handles_ok_same_protocol)
    show ?thesis
    proof (cases "copy c r")
      case (Raised e c')
      with ok3 Some Done show ?thesis by (simp add: get_collect_def)
    next
      case (Returned c')
      with fr ok3 have fr': "same_protocol c c'" and ok': "handles_ok c'" by simp_all
      have "handles_ok (c'\<lparr>get_future := None\<rparr>)"
      proof (rule handles_ok_clear[OF ok', where k = Get_async])
        fix i assume i: "i < length (server c')" "origin (server c' ! i) = Get_async"
        have "is_done (status (server c ! i))"
        proof (rule resolved_if_handle_done[OF assms, where k = Get_async and f = f])
          show "slot Get_async c = Some f" using Some by simp
          show "is_done (handle_status c f)" using Done by simp
          show "i < length (server c)" "origin (server c ! i) = Get_async"
            using i same_protocol_fields(1)[OF fr'] by simp_all
        qed simp
        then show "is_done (status (server c' ! i))"
          using same_protocol_fields(1)[OF fr'] by simp
      next
        show "slot k' (c'\<lparr>get_future := None\<rparr>) = slot k' c'" if "k' \<noteq> Get_async" for k'
          using that by (cases k') simp_all
      qed simp_all
      with Returned Some Done show ?thesis by (simp add: get_collect_def)
    qed
  qed
qed

lemma get_async_ok: "handles_ok c \<Longrightarrow> handles_ok (post (get_async reply early c))"
  by (simp add: get_async_halves get_request_ok get_collect_ok)

lemma server_get_collect: "server (post (get_collect c)) = server c"
proof -
  have "server (post (copy c r)) = server c" for r
    using same_protocol_fields(1)[OF same_protocol_copy] .
  then show ?thesis
    by (auto simp: get_collect_def split: option.splits status.splits outcome.splits)
       (metis post.simps)+
qed

lemma server_get_async:
  "server (post (get_async reply early c)) =
     server c @ (if update_period c \<le> counted (get_call_counter c) (update_period c) \<and> get_future c = None
                 then [get_rpc c (if multi_process c \<and> \<not> early then Pending else Done reply)] else [])"
  by (simp add: get_async_halves server_get_collect get_request_def Let_def server_async_request
        get_rpc_def)

lemma async_adjust_param_eq:
  "async_adjust_param params c = c\<lparr>server := server c @ [set_rpc c params]\<rparr>"
  by (simp add: async_adjust_param_def remote_future_def done_future_def send_def set_rpc_def)

lemma handles_ok_counter:
  "handles_ok (c\<lparr>get_call_counter := n\<rparr>) = handles_ok c"
  "handles_ok (c\<lparr>set_call_counter := n\<rparr>) = handles_ok c"
  "handles_ok (c\<lparr>set_get_call_counter := n\<rparr>) = handles_ok c"
  "handles_ok (c\<lparr>async_add_buffer := b\<rparr>) = handles_ok c"
  by (rule handles_ok_same; simp)+

lemma set_async_ok_server:
  assumes ok: "handles_ok c"
  shows "handles_ok (post (set_async params c))
       \<and> (\<exists>new. server (post (set_async params c)) = server c @ new
            \<and> (new = [] \<or> set_future c = None) \<and> list_all (\<lambda>r. origin r = Set_async) new)"
proof -
  let ?c1 = "c\<lparr>set_call_counter := counted (set_call_counter c) (update_period c)\<rparr>"
  have c1: "(if set_call_counter c < update_period c
             then c\<lparr>set_call_counter := set_call_counter c + 1\<rparr> else c) = ?c1"
    by (simp add: counted_def)
  have ok1: "handles_ok ?c1" using ok by (simp add: handles_ok_counter)
  have issue: "handles_ok ((async_adjust_param ps ?c1)
                 \<lparr>set_future := Some (length (server ?c1)), set_call_counter := 0\<rparr>)"
    if "set_future ?c1 = None" for ps
  proof (rule handles_ok_issue[OF ok1, where k = Set_async and r = "set_rpc ?c1 ps"])
    show "slot k' ((async_adjust_param ps ?c1)
            \<lparr>set_future := Some (length (server ?c1)), set_call_counter := 0\<rparr>) = slot k' ?c1"
      if "k' \<noteq> Set_async" for k'
      using that by (cases k') (simp_all add: async_adjust_param_eq)
  qed (use that in \<open>simp_all add: async_adjust_param_eq set_rpc_def\<close>)
  show ?thesis
  proof (cases "update_period ?c1 \<le> set_call_counter ?c1 \<and> set_future ?c1 = None")
    case True
    then have sf: "set_future ?c1 = None" "set_future c = None" by simp_all
    show ?thesis
    proof (cases params)
      case (Some ps)
      have "set_async params c = Returned ((async_adjust_param ps ?c1)
                 \<lparr>set_future := Some (length (server ?c1)), set_call_counter := 0\<rparr>)"
        using True Some unfolding set_async_def c1 Let_def by simp
      then show ?thesis using issue[OF sf(1), of ps] sf(2)
        by (simp add: async_adjust_param_eq set_rpc_def)
    next
      case None
      show ?thesis
      proof (cases "gather ?c1 (set_keys ?c1) []")
        case (Inl e)
        then have "set_async params c = Raised e ?c1"
          using True None unfolding set_async_def c1 Let_def by (simp add: async_adjust_def)
        then show ?thesis using ok1 by simp
      next
        case (Inr ps)
        then have "set_async params c = Returned ((async_adjust_param ps ?c1)
                 \<lparr>set_future := Some (length (server ?c1)), set_call_counter := 0\<rparr>)"
          using True None unfolding set_async_def c1 Let_def by (simp add: async_adjust_def)
        then show ?thesis using issue[OF sf(1), of ps] sf(2)
          by (simp add: async_adjust_param_eq set_rpc_def)
      qed
    qed
  next
    case False
    show ?thesis
    proof (cases "poll ?c1 (set_future ?c1)")
      case True
      then obtain f where f: "set_future ?c1 = Some f" "is_done (handle_status ?c1 f)"
        by (cases "set_future ?c1") auto
      have eq: "set_async params c = Returned (?c1\<lparr>set_future := None\<rparr>)"
        using False True unfolding set_async_def c1 Let_def by auto
      have "handles_ok (?c1\<lparr>set_future := None\<rparr>)"
      proof (rule handles_ok_clear[OF ok1, where k = Set_async])
        fix i assume "i < length (server ?c1)" "origin (server ?c1 ! i) = Set_async"
        then show "is_done (status (server ?c1 ! i))"
          using resolved_if_handle_done[OF ok1, of Set_async f i] f by simp
      next
        show "slot k' (?c1\<lparr>set_future := None\<rparr>) = slot k' ?c1" if "k' \<noteq> Set_async" for k'
          using that by (cases k') simp_all
      qed simp_all
      with eq show ?thesis by simp
    next
      case np: False
      have "set_async params c = Returned ?c1"
        using False np unfolding set_async_def c1 Let_def by auto
      then show ?thesis using ok1 by simp
    qed
  qed
qed

lemma handles_ok_post_copy: "handles_ok (post (copy c r)) = handles_ok c"
  by (rule handles_ok_same_protocol) (rule same_protocol_copy)

lemma server_post_copy: "server (post (copy c r)) = server c"
  using same_protocol_fields(1)[OF same_protocol_copy] .

lemma set_get_future_post_copy: "set_get_future (post (copy c r)) = set_get_future c"
  using same_protocol_fields(4)[OF same_protocol_copy] .

lemma set_and_get_async_ok_server:
  assumes ok: "handles_ok c"
  shows "handles_ok (post (set_and_get_async reply c))
       \<and> (\<exists>new. server (post (set_and_get_async reply c)) = server c @ new
            \<and> (new = [] \<or> set_get_future c = None)
            \<and> list_all (\<lambda>r. origin r = Set_and_get_async) new)"
proof -
  let ?c1 = "c\<lparr>set_get_call_counter := counted (set_get_call_counter c) (update_period c)\<rparr>"
  have c1: "(if set_get_call_counter c < update_period c
             then c\<lparr>set_get_call_counter := set_get_call_counter c + 1\<rparr> else c) = ?c1"
    by (simp add: counted_def)
  have ok1: "handles_ok ?c1" using ok by (simp add: handles_ok_counter)
  show ?thesis
  proof (cases "update_period ?c1 \<le> set_get_call_counter ?c1 \<and> set_get_future ?c1 = None")
    case True
    then have sf: "set_get_future ?c1 = None" "set_get_future c = None" by simp_all
    show ?thesis
    proof (cases "gather ?c1 (set_keys ?c1) []")
      case (Inl e)
      then have "set_and_get_async reply c = Raised e ?c1"
        using True unfolding set_and_get_async_def c1 Let_def
        by (simp add: async_adjust_and_request_def adjust_and_request_def Let_def)
      then show ?thesis using ok1 by simp
    next
      case (Inr ps)
      show ?thesis
      proof (cases "multi_process c")
        case True
        let ?g = "length (server c)"
        let ?c2 = "?c1\<lparr>server := server c @ set_get_rpcs c ps reply\<rparr>"
        let ?c3 = "?c2\<lparr>set_get_future := Some (?g, Suc ?g), set_get_call_counter := 0\<rparr>"
        have eq: "set_and_get_async reply c = Returned ?c3"
          using \<open>update_period ?c1 \<le> set_get_call_counter ?c1 \<and> set_get_future ?c1 = None\<close>
            Inr True
          unfolding set_and_get_async_def c1 Let_def
          by (simp add: async_adjust_and_request_def send_def set_get_rpcs_def Let_def)
        have "handles_ok ?c3"
          by (rule handles_ok_issue_pair[OF ok1,
                where ?r1.0 = "set_get_rpcs c ps reply ! 0" and ?r2.0 = "set_get_rpcs c ps reply ! 1"])
             (use sf True in \<open>simp_all add: set_get_rpcs_def\<close>)
        then show ?thesis using eq sf True by (simp add: set_get_rpcs_def)
      next
        case False
        let ?c2 = "?c1\<lparr>server := server c @ set_get_rpcs c ps reply\<rparr>"
        have ok2: "handles_ok ?c2"
        proof (rule handles_ok_append_done[OF ok1, where rs = "set_get_rpcs c ps reply"])
          fix j assume "j < length (set_get_rpcs c ps reply)"
          then have "j = 0 \<or> j = 1" using False by (auto simp: set_get_rpcs_def)
          then show "is_done (status (set_get_rpcs c ps reply ! j)) \<and>
            (group (set_get_rpcs c ps reply ! j) = length (server ?c1) + j \<or>
             origin (set_get_rpcs c ps reply ! j) = Set_and_get_async \<and>
             length (server ?c1) + j = Suc (group (set_get_rpcs c ps reply ! j)))"
            using False by (auto simp: set_get_rpcs_def)
        qed simp_all
        have ar: "adjust_and_request reply ?c1 = copy ?c2 reply"
          using Inr False by (simp add: adjust_and_request_def send_def set_get_rpcs_def Let_def)
        have ok3: "handles_ok (post (copy ?c2 reply))" using ok2 by (simp only: handles_ok_post_copy)
        have s3: "server (post (copy ?c2 reply)) = server c @ set_get_rpcs c ps reply"
          by (simp add: server_post_copy)
        have g3: "set_get_future (post (copy ?c2 reply)) = None"
          using sf by (simp add: set_get_future_post_copy)
        show ?thesis
        proof (cases "copy ?c2 reply")
          case (Raised e c3)
          then have "set_and_get_async reply c = Raised e c3"
            using \<open>update_period ?c1 \<le> set_get_call_counter ?c1 \<and> set_get_future ?c1 = None\<close>
              False ar
            unfolding set_and_get_async_def c1 Let_def
            by (simp add: async_adjust_and_request_def Let_def)
          then show ?thesis using ok3 s3 sf Raised False by (simp add: set_get_rpcs_def)
        next
          case (Returned c3)
          then have eq: "set_and_get_async reply c =
              Returned (c3\<lparr>set_get_future := None, set_get_call_counter := 0\<rparr>)"
            using \<open>update_period ?c1 \<le> set_get_call_counter ?c1 \<and> set_get_future ?c1 = None\<close>
              False ar
            unfolding set_and_get_async_def c1 Let_def
            by (simp add: async_adjust_and_request_def Let_def)
          have "handles_ok (c3\<lparr>set_get_future := None, set_get_call_counter := 0\<rparr>) = handles_ok c3"
            using g3 Returned by (intro handles_ok_same) simp_all
          then show ?thesis using eq ok3 s3 sf Returned False by (simp add: set_get_rpcs_def)
        qed
      qed
    qed
  next
    case False
    show ?thesis
    proof (cases "all_done ?c1 (set_get_future ?c1)")
      case True
      have eq: "set_and_get_async reply c = Returned (?c1\<lparr>set_get_future := None\<rparr>)"
        using False True unfolding set_and_get_async_def c1 Let_def by auto
      have "handles_ok (?c1\<lparr>set_get_future := None\<rparr>)"
      proof (rule handles_ok_clear[OF ok1, where k = Set_and_get_async])
        fix i assume "i < length (server ?c1)" "origin (server ?c1 ! i) = Set_and_get_async"
        then show "is_done (status (server ?c1 ! i))"
          using resolved_if_all_done[OF ok1 True, of i] by simp
      next
        show "slot k' (?c1\<lparr>set_get_future := None\<rparr>) = slot k' ?c1"
          if "k' \<noteq> Set_and_get_async" for k'
          using that by (cases k') simp_all
      qed simp_all
      with eq show ?thesis by simp
    next
      case nd: False
      have "set_and_get_async reply c = Returned ?c1"
        using False nd unfolding set_and_get_async_def c1 Let_def by auto
      then show ?thesis using ok1 by simp
    qed
  qed
qed

lemma async_add_eq: "async_add params c = c\<lparr>server := server c @ [add_rpc c params]\<rparr>"
  by (simp add: async_add_def remote_future_def done_future_def send_def add_rpc_def)

lemma add_async_ok_server:
  assumes ok: "handles_ok c"
  shows "handles_ok (post (add_async params c))
       \<and> (\<exists>new. server (post (add_async params c)) = server c @ new
            \<and> (new = [] \<or> add_future c = None \<or> poll c (add_future c))
            \<and> list_all (\<lambda>r. origin r = Add_async) new)"
proof -
  define c1 where "c1 = (if poll c (add_future c) then c\<lparr>add_future := None\<rparr> else c)"
  have s1: "server c1 = server c" by (simp add: c1_def)
  have ok1: "handles_ok c1"
  proof (cases "poll c (add_future c)")
    case False
    then show ?thesis using ok by (simp add: c1_def)
  next
    case True
    then obtain f where f: "add_future c = Some f" "is_done (handle_status c f)"
      by (cases "add_future c") auto
    have "handles_ok (c\<lparr>add_future := None\<rparr>)"
    proof (rule handles_ok_clear[OF ok, where k = Add_async])
      fix i assume "i < length (server c)" "origin (server c ! i) = Add_async"
      then show "is_done (status (server c ! i))"
        using resolved_if_handle_done[OF ok, of Add_async f i] f by simp
    next
      show "slot k' (c\<lparr>add_future := None\<rparr>) = slot k' c" if "k' \<noteq> Add_async" for k'
        using that by (cases k') simp_all
    qed simp_all
    with True show ?thesis by (simp add: c1_def)
  qed
  have unfold: "add_async params c =
     (if add_future c1 = None then
           (if async_add_buffer c1 = [] then
              Returned ((async_add params c1)\<lparr>add_future := Some (length (server c1))\<rparr>)
            else
              (case iadd_all (async_add_buffer c1) params of
                 Raised e buf \<Rightarrow> Raised e (c1\<lparr>async_add_buffer := buf\<rparr>)
               | Returned buf \<Rightarrow>
                   Returned ((async_add buf c1)
                     \<lparr>add_future := Some (length (server c1)), async_add_buffer := []\<rparr>)))
         else if async_add_buffer c1 \<noteq> [] then
           (case iadd_all (async_add_buffer c1) params of
              Raised e buf \<Rightarrow> Raised e (c1\<lparr>async_add_buffer := buf\<rparr>)
            | Returned buf \<Rightarrow> Returned (c1\<lparr>async_add_buffer := buf\<rparr>))
         else Returned (c1\<lparr>async_add_buffer := assign_all (async_add_buffer c1) params\<rparr>))"
    unfolding add_async_def Let_def c1_def ..
  have issue: "handles_ok ((async_add ps c1)\<lparr>add_future := Some (length (server c1))\<rparr>)"
    if "add_future c1 = None" for ps
  proof (rule handles_ok_issue[OF ok1, where k = Add_async and r = "add_rpc c1 ps"])
    show "slot k' ((async_add ps c1)\<lparr>add_future := Some (length (server c1))\<rparr>) = slot k' c1"
      if "k' \<noteq> Add_async" for k'
      using that by (cases k') (simp_all add: async_add_eq)
  qed (use that in \<open>simp_all add: async_add_eq add_rpc_def\<close>)
  have trig: "add_future c1 = None \<Longrightarrow> add_future c = None \<or> poll c (add_future c)"
    by (cases "poll c (add_future c)") (simp_all add: c1_def)
  show ?thesis
  proof (cases "add_future c1 = None")
    case True
    note t = trig[OF True]
    show ?thesis
    proof (cases "async_add_buffer c1 = []")
      case e: True
      have eq: "add_async params c =
          Returned ((async_add params c1)\<lparr>add_future := Some (length (server c1))\<rparr>)"
        using True e unfolding unfold by simp
      show ?thesis unfolding eq using issue[OF True, of params] t s1
        by (simp add: async_add_eq add_rpc_def)
    next
      case ne: False
      show ?thesis
      proof (cases "iadd_all (async_add_buffer c1) params")
        case (Raised e buf)
        then have eq: "add_async params c = Raised e (c1\<lparr>async_add_buffer := buf\<rparr>)"
          using True ne unfolding unfold by simp
        show ?thesis unfolding eq using ok1 s1 by (simp add: handles_ok_counter)
      next
        case (Returned buf)
        then have eq: "add_async params c =
            Returned ((async_add buf c1)\<lparr>add_future := Some (length (server c1)),
               async_add_buffer := []\<rparr>)"
          using True ne unfolding unfold by simp
        show ?thesis unfolding eq using issue[OF True, of buf] t s1
          by (simp add: handles_ok_counter) (simp add: async_add_eq add_rpc_def)
      qed
    qed
  next
    case False
    have "post (add_async params c) =
            c1\<lparr>async_add_buffer :=
                 (if async_add_buffer c1 \<noteq> []
                  then post (iadd_all (async_add_buffer c1) params)
                  else assign_all (async_add_buffer c1) params)\<rparr>"
    proof -
      from False obtain f where "add_future c1 = Some f" by blast
      then show ?thesis unfolding unfold
        by (cases "iadd_all (async_add_buffer c1) params") simp_all
    qed
    then show ?thesis using ok1 s1 by (simp add: handles_ok_counter)
  qed
qed

lemma blocking_ok:
  assumes ok: "handles_ok c"
  shows "handles_ok (send Blocking (length (server c)) False q (Done r) c)"
proof (rule handles_ok_append_done[OF ok,
        where rs = "[\<lparr>request = q, status = Done r, origin = Blocking,
                      group = length (server c), done_callback = False\<rparr>]"])
qed (simp_all add: send_def)

lemma server_send:
  "server (send who g cb q st c) =
     server c @ [\<lparr>request = q, status = st, origin = who, group = g, done_callback = cb\<rparr>]"
  by (simp add: send_def)

lemma waits_ok_server:
  assumes ok: "handles_ok c"
  shows "handles_ok (post (add_and_wait params c))
       \<and> (\<exists>new. server (post (add_and_wait params c)) = server c @ new
              \<and> list_all (\<lambda>r. origin r = Blocking) new)"
    and "handles_ok (post (get_and_wait reply c))
       \<and> (\<exists>new. server (post (get_and_wait reply c)) = server c @ new
              \<and> list_all (\<lambda>r. origin r = Blocking) new)"
    and "handles_ok (post (get_all_and_wait reply c))
       \<and> (\<exists>new. server (post (get_all_and_wait reply c)) = server c @ new
              \<and> list_all (\<lambda>r. origin r = Blocking) new)"
    and "handles_ok (post (set_and_wait ps c))
       \<and> (\<exists>new. server (post (set_and_wait ps c)) = server c @ new
              \<and> list_all (\<lambda>r. origin r = Blocking) new)"
proof -
  show "handles_ok (post (add_and_wait params c))
       \<and> (\<exists>new. server (post (add_and_wait params c)) = server c @ new
              \<and> list_all (\<lambda>r. origin r = Blocking) new)"
    using blocking_ok[OF ok] by (simp add: add_and_wait_def server_send)
  show "handles_ok (post (get_and_wait reply c))
       \<and> (\<exists>new. server (post (get_and_wait reply c)) = server c @ new
              \<and> list_all (\<lambda>r. origin r = Blocking) new)"
    using blocking_ok[OF ok]
    by (simp add: get_and_wait_def handles_ok_post_copy server_post_copy server_send)
  show "handles_ok (post (get_all_and_wait reply c))
       \<and> (\<exists>new. server (post (get_all_and_wait reply c)) = server c @ new
              \<and> list_all (\<lambda>r. origin r = Blocking) new)"
    using blocking_ok[OF ok]
    by (simp add: get_all_and_wait_def handles_ok_post_copy server_post_copy server_send)
  show "handles_ok (post (set_and_wait ps c))
       \<and> (\<exists>new. server (post (set_and_wait ps c)) = server c @ new
              \<and> list_all (\<lambda>r. origin r = Blocking) new)"
    using blocking_ok[OF ok] ok
    by (auto simp: set_and_wait_def server_send split: option.splits sum.splits)
qed

lemma complete_ok_server:
  assumes ok: "handles_ok c"
  shows "handles_ok (complete i reply c) \<and> length (server (complete i reply c)) = length (server c)"
  using handles_ok_complete[OF ok, of i reply]
  by (simp add: complete_def Let_def handles_ok_post_copy server_post_copy ok)

lemma step_ok_issued:
  assumes ok: "handles_ok c"
  shows "handles_ok (post (step ev c))
       \<and> list_all (\<lambda>r. origin r = Blocking \<or> pending (origin r) c = []) (issued ev c)"
proof -
  have empty_slot: "pending k c = []" if "slot k c = None" for k
    unfolding pending_empty using resolved_if_slot_empty[OF ok that] by blast
  have from_new: "list_all (\<lambda>r. origin r = Blocking \<or> pending (origin r) c = []) (issued ev c)"
    if "server (post (step ev c)) = server c @ new"
      and "list_all (\<lambda>r. origin r = k) new" and "new = [] \<or> k = Blocking \<or> pending k c = []"
    for new k
  proof -
    have "issued ev c = new" using that(1) by (simp add: issued_def)
    then show ?thesis using that(2,3) by (auto simp: list_all_iff)
  qed
  show ?thesis
  proof (cases ev)
    case (Get_async_call reply early)
    let ?new = "if update_period c \<le> counted (get_call_counter c) (update_period c) \<and> get_future c = None
                 then [get_rpc c (if multi_process c \<and> \<not> early then Pending else Done reply)] else []"
    have "server (post (step ev c)) = server c @ ?new"
      using Get_async_call by (simp only: step.simps server_get_async)
    moreover have "list_all (\<lambda>r. origin r = Get_async) ?new" by (simp add: get_rpc_def)
    moreover have "?new = [] \<or> Get_async = Blocking \<or> pending Get_async c = []"
      using empty_slot[of Get_async] by auto
    ultimately show ?thesis using from_new get_async_ok[OF ok] Get_async_call by simp
  next
    case (Set_async_call ps)
    from set_async_ok_server[OF ok, of ps] obtain new where
      n: "handles_ok (post (set_async ps c))" "server (post (set_async ps c)) = server c @ new"
         "new = [] \<or> set_future c = None" "list_all (\<lambda>r. origin r = Set_async) new"
      by blast
    have "new = [] \<or> Set_async = Blocking \<or> pending Set_async c = []"
      using n(3) empty_slot[of Set_async] by auto
    then show ?thesis using from_new[of new Set_async] n Set_async_call by simp
  next
    case (Set_and_get_async_call reply)
    from set_and_get_async_ok_server[OF ok, of reply] obtain new where
      n: "handles_ok (post (set_and_get_async reply c))"
         "server (post (set_and_get_async reply c)) = server c @ new"
         "new = [] \<or> set_get_future c = None" "list_all (\<lambda>r. origin r = Set_and_get_async) new"
      by blast
    have "new = [] \<or> Set_and_get_async = Blocking \<or> pending Set_and_get_async c = []"
      using n(3) empty_slot[of Set_and_get_async] by auto
    then show ?thesis using from_new[of new Set_and_get_async] n Set_and_get_async_call by simp
  next
    case (Add_async_call ps)
    from add_async_ok_server[OF ok, of ps] obtain new where
      n: "handles_ok (post (add_async ps c))" "server (post (add_async ps c)) = server c @ new"
         "new = [] \<or> add_future c = None \<or> poll c (add_future c)"
         "list_all (\<lambda>r. origin r = Add_async) new"
      by blast
    have done_slot: "pending Add_async c = []" if "poll c (add_future c)"
    proof -
      from that obtain f where f: "add_future c = Some f" "is_done (handle_status c f)"
        by (cases "add_future c") auto
      show ?thesis unfolding pending_empty
        using resolved_if_handle_done[OF ok, of Add_async f] f by simp
    qed
    have "new = [] \<or> Add_async = Blocking \<or> pending Add_async c = []"
      using n(3) empty_slot[of Add_async] done_slot by auto
    then show ?thesis using from_new[of new Add_async] n Add_async_call by simp
  next
    case (Add_and_wait_call ps)
    from waits_ok_server(1)[OF ok, of ps] obtain new where
      n: "handles_ok (post (add_and_wait ps c))" "server (post (add_and_wait ps c)) = server c @ new"
         "list_all (\<lambda>r. origin r = Blocking) new"
      by blast
    then show ?thesis using from_new[of new Blocking] Add_and_wait_call by simp
  next
    case (Get_and_wait_call reply)
    from waits_ok_server(2)[OF ok, of reply] obtain new where
      n: "handles_ok (post (get_and_wait reply c))"
         "server (post (get_and_wait reply c)) = server c @ new"
         "list_all (\<lambda>r. origin r = Blocking) new"
      by blast
    then show ?thesis using from_new[of new Blocking] Get_and_wait_call by simp
  next
    case (Get_all_and_wait_call reply)
    from waits_ok_server(3)[OF ok, of reply] obtain new where
      n: "handles_ok (post (get_all_and_wait reply c))"
         "server (post (get_all_and_wait reply c)) = server c @ new"
         "list_all (\<lambda>r. origin r = Blocking) new"
      by blast
    then show ?thesis using from_new[of new Blocking] Get_all_and_wait_call by simp
  next
    case (Set_and_wait_call ps)
    from waits_ok_server(4)[OF ok, of ps] obtain new where
      n: "handles_ok (post (set_and_wait ps c))" "server (post (set_and_wait ps c)) = server c @ new"
         "list_all (\<lambda>r. origin r = Blocking) new"
      by blast
    then show ?thesis using from_new[of new Blocking] Set_and_wait_call by simp
  next
    case (Completes i reply)
    then show ?thesis using complete_ok_server[OF ok, of i reply] by (simp add: issued_def)
  qed
qed

lemma run_ok: "handles_ok c \<Longrightarrow> handles_ok (run evs c)"
  by (induction evs arbitrary: c) (simp_all add: step_ok_issued)

lemma init_ok: "handles_ok (init srt jfd params objs multi gkeys skeys period devs)"
  by (simp add: handles_ok_def init_def)

lemma outstanding_le_one:
  assumes ok: "handles_ok c"
  shows "outstanding k c \<le> 1"
proof -
  have "set (map group (pending k c)) \<subseteq> (case slot k c of None \<Rightarrow> {} | Some g \<Rightarrow> {g})"
  proof
    fix g assume "g \<in> set (map group (pending k c))"
    then obtain r where r: "r \<in> set (server c)" "origin r = k" "\<not> is_done (status r)" "group r = g"
      by (auto simp: pending_def)
    then obtain i where i: "i < length (server c)" "server c ! i = r"
      by (auto simp: in_set_conv_nth)
    from unresolved_in_slot(1)[OF ok i(1)] i(2) r
    show "g \<in> (case slot k c of None \<Rightarrow> {} | Some g \<Rightarrow> {g})" by simp
  qed
  then have "card (set (map group (pending k c))) \<le> card (case slot k c of None \<Rightarrow> {} | Some g \<Rightarrow> {g})"
    by (intro card_mono) (auto split: option.splits)
  also have "\<dots> \<le> 1" by (simp split: option.splits)
  finally show ?thesis by (simp add: outstanding_def length_remdups_card_conv)
qed

lemma outstanding_blocking:
  assumes ok: "handles_ok c"
  shows "outstanding Blocking c = 0"
proof -
  have "pending Blocking c = []"
    unfolding pending_empty using resolved_if_slot_empty[OF ok, of Blocking] by simp
  then show ?thesis by (simp add: outstanding_def)
qed

text \<open>
  Claim C2. In every state \<open>c\<close> a freshly constructed client reaches by calls of its
  operations and completions of its requests, in any order: whatever event comes next, a
  call it sends on behalf of one of the four asynchronous kinds finds no unresolved call of
  that kind; in particular \<^verbatim>\<open>get_async\<close> sends nothing while a get is unresolved. So
  each kind has at most one outstanding request (the two calls of a combined set-then-get
  are one request), at most four in all, and the blocking operations leave none.
\<close>

theorem at_most_one_outstanding:
  assumes "c = run evs (init srt jfd params objs multi gkeys skeys period devs)"
  shows "list_all (\<lambda>r. origin r = Blocking \<or> pending (origin r) c = []) (issued ev c)
       \<and> (pending Get_async c = [] \<or> issued (Get_async_call reply early) c = [])
       \<and> (\<forall>k. outstanding k c \<le> 1)
       \<and> outstanding Get_async c + outstanding Set_async c
           + outstanding Set_and_get_async c + outstanding Add_async c \<le> 4
       \<and> outstanding Blocking c = 0"
proof -
  have ok: "handles_ok c" unfolding assms by (rule run_ok) (rule init_ok)
  have a: "list_all (\<lambda>r. origin r = Blocking \<or> pending (origin r) c = []) (issued ev c)" for ev
    using step_ok_issued[OF ok, of ev] by simp
  have b: "pending Get_async c = [] \<or> issued (Get_async_call reply early) c = []"
  proof (cases "issued (Get_async_call reply early) c")
    case Nil
    then show ?thesis by simp
  next
    case (Cons r rs)
    have "issued (Get_async_call reply early) c =
       (if update_period c \<le> counted (get_call_counter c) (update_period c) \<and> get_future c = None
        then [get_rpc c (if multi_process c \<and> \<not> early then Pending else Done reply)] else [])"
      by (simp add: issued_def server_get_async)
    with Cons have "origin r = Get_async" by (auto simp: get_rpc_def split: if_splits)
    with a[of "Get_async_call reply early"] Cons show ?thesis by simp
  qed
  have c: "outstanding k c \<le> 1" for k by (rule outstanding_le_one[OF ok])
  have d: "outstanding Get_async c + outstanding Set_async c
           + outstanding Set_and_get_async c + outstanding Add_async c \<le> 4"
    using c[of Get_async] c[of Set_async] c[of Set_and_get_async] c[of Add_async] by linarith
  show ?thesis using a b c d outstanding_blocking[OF ok] by blast
qed

theorem at_most_one_outstanding_witness:
  "pending Get_async
     (run [Get_async_call [] False, Get_async_call [] False] (example_client True 1)) \<noteq> []
   \<and> issued (Get_async_call [] False)
       (run [Get_async_call [] False, Get_async_call [] False] (example_client True 1)) = []
   \<and> outstanding Get_async
       (run [Get_async_call [] False, Get_async_call [] False] (example_client True 1)) \<le> 1"
proof -
  let ?c = "run [Get_async_call [] False, Get_async_call [] False] (example_client True 1)"
  have p: "pending Get_async ?c \<noteq> []"
    by (simp add: example_client_def init_def get_async_def async_request_def remote_future_def
          send_def handle_status_def pending_def Let_def)
  have e: "?c = run [Get_async_call [] False, Get_async_call [] False]
                  (init (\<lambda>ks. ks) (\<lambda>d. d) [(''w'', 0), (''layers'', 1), (''steps'', 2)]
                     [int64_array [2] [7, 8], PyList [PyOther ''l0'', PyOther ''l1''], int64_array [] [0]]
                     True (Some [''w'', ''layers'']) (Some [''w'']) 1 [])"
    by (simp only: example_client_def)
  show ?thesis
    using at_most_one_outstanding [OF e, of "Get_async_call [] False" "[]" False] p
    by blast
qed

section \<open>The network assignment of an episode\<close>

lemma map_of_setitem_same: "map_of (setitem k v d) k = Some v"
  by (induction d) auto

lemma hook_step_keeps:
  assumes "\<not> is_observe_first h" and "adder st = Some cs"
  shows "network_int_keys_extras (hook_step srt h st) = network_int_keys_extras st
       \<and> agent_net_keys (hook_step srt h st) = agent_net_keys st
       \<and> adder (hook_step srt h st) =
           Some (if is_observe h
                 then cs @ [Add (adder_actions_of (actions_info st) []) (next_timestep st)
                              (setitem ''network_int_keys'' (network_int_keys_extras st) (next_extras st))]
                 else cs)"
  using assms
  by (cases h)
     (auto simp: on_execution_observe_def on_execution_update_def on_execution_force_update_def
           Let_def split: option.splits outcome.splits)

lemma run_hooks_keeps:
  "list_all (\<lambda>h. \<not> is_observe_first h) hs \<Longrightarrow> adder st = Some cs \<Longrightarrow>
   network_int_keys_extras (run_hooks srt hs st) = network_int_keys_extras st
   \<and> agent_net_keys (run_hooks srt hs st) = agent_net_keys st
   \<and> (\<exists>adds. adder (run_hooks srt hs st) = Some (cs @ adds)
        \<and> length adds = length (filter is_observe hs)
        \<and> list_all (\<lambda>call. is_add call \<and> forwarded_keys call = Some (network_int_keys_extras st)) adds)"
proof (induction hs arbitrary: st cs)
  case Nil
  then show ?case by simp
next
  case (Cons h hs)
  let ?st = "hook_step srt h st"
  let ?new = "Add (adder_actions_of (actions_info st) []) (next_timestep st)
                (setitem ''network_int_keys'' (network_int_keys_extras st) (next_extras st))"
  let ?cs = "if is_observe h then cs @ [?new] else cs"
  from Cons.prems have h: "\<not> is_observe_first h" and hs: "list_all (\<lambda>h. \<not> is_observe_first h) hs"
    by simp_all
  from hook_step_keeps[OF h Cons.prems(2), of srt]
  have k: "network_int_keys_extras ?st = network_int_keys_extras st"
    and a: "agent_net_keys ?st = agent_net_keys st"
    and ad: "adder ?st = Some ?cs" by simp_all
  from Cons.IH[OF hs ad] obtain adds where
    r: "network_int_keys_extras (run_hooks srt hs ?st) = network_int_keys_extras ?st"
       "agent_net_keys (run_hooks srt hs ?st) = agent_net_keys ?st"
       "adder (run_hooks srt hs ?st) = Some (?cs @ adds)"
       "length adds = length (filter is_observe hs)"
       "list_all (\<lambda>call. is_add call \<and> forwarded_keys call = Some (network_int_keys_extras ?st)) adds"
    by blast
  let ?adds = "(if is_observe h then [?new] else []) @ adds"
  have "adder (run_hooks srt (h # hs) st) = Some (cs @ ?adds)" using r(3) by simp
  moreover have "length ?adds = length (filter is_observe (h # hs))" using r(4) by simp
  moreover have "list_all (\<lambda>call. is_add call \<and> forwarded_keys call = Some (network_int_keys_extras st)) ?adds"
    using r(5) k by (simp add: map_of_setitem_same)
  ultimately show ?case using r(1,2) k a by (simp del: hook_step.simps)
qed

text \<open>
  Claim C8. Let an adder be attached. After \<^verbatim>\<open>on_execution_observe_first\<close> has sampled
  the assignment, any sequence of the other hooks and of the executor's own writes leaves
  \<^verbatim>\<open>network_int_keys_extras\<close> and \<^verbatim>\<open>agent_net_keys\<close> as sampled; the adder
  receives \<^verbatim>\<open>add_first\<close> and then one \<^verbatim>\<open>add\<close> per call of
  \<^verbatim>\<open>on_execution_observe\<close>, each carrying the sampled value under
  \<^verbatim>\<open>"network_int_keys"\<close>.
\<close>

theorem network_int_keys_stable:
  assumes "adder st = Some cs" and "list_all (\<lambda>h. \<not> is_observe_first h) hs"
  shows "network_int_keys_extras (run_hooks srt hs (on_execution_observe_first srt smp st)) =
           fst (smp (srt (map fst (agent_net_keys st))) (network_sampling_setup st) (net_keys_to_ids st))
       \<and> agent_net_keys (run_hooks srt hs (on_execution_observe_first srt smp st)) =
           snd (smp (srt (map fst (agent_net_keys st))) (network_sampling_setup st) (net_keys_to_ids st))
       \<and> (\<exists>first adds.
            calls_of (run_hooks srt hs (on_execution_observe_first srt smp st)) = cs @ first # adds
            \<and> \<not> is_add first
            \<and> forwarded_keys first =
                Some (fst (smp (srt (map fst (agent_net_keys st))) (network_sampling_setup st)
                        (net_keys_to_ids st)))
            \<and> length adds = length (filter is_observe hs)
            \<and> list_all (\<lambda>call. is_add call \<and> forwarded_keys call =
                Some (fst (smp (srt (map fst (agent_net_keys st))) (network_sampling_setup st)
                        (net_keys_to_ids st)))) adds)"
proof -
  let ?v = "smp (srt (map fst (agent_net_keys st))) (network_sampling_setup st) (net_keys_to_ids st)"
  let ?st1 = "on_execution_observe_first srt smp st"
  let ?first = "Add_first (timestep st) (setitem ''network_int_keys'' (fst ?v) (extras st))"
  have n: "network_int_keys_extras ?st1 = fst ?v" and a: "agent_net_keys ?st1 = snd ?v"
    and ad: "adder ?st1 = Some (cs @ [?first])"
    using assms(1) by (simp_all add: on_execution_observe_first_def Let_def)
  from run_hooks_keeps[OF assms(2) ad, of srt] obtain adds where
    r: "network_int_keys_extras (run_hooks srt hs ?st1) = network_int_keys_extras ?st1"
       "agent_net_keys (run_hooks srt hs ?st1) = agent_net_keys ?st1"
       "adder (run_hooks srt hs ?st1) = Some ((cs @ [?first]) @ adds)"
       "length adds = length (filter is_observe hs)"
       "list_all (\<lambda>call. is_add call \<and> forwarded_keys call = Some (network_int_keys_extras ?st1)) adds"
    by blast
  have "calls_of (run_hooks srt hs ?st1) = cs @ ?first # adds"
    using r(3) by (simp add: calls_of_def)
  moreover have "\<not> is_add ?first" by simp
  moreover have "forwarded_keys ?first = Some (fst ?v)" by (simp add: map_of_setitem_same)
  ultimately show ?thesis using r(1,2,4,5) n a by auto
qed

theorem network_int_keys_stable_witness:
  "network_int_keys_extras
     (run_hooks (\<lambda>ks. ks) [Observe, Update [] False, Executor_sets 1 2 [] [] [], Observe]
        (on_execution_observe_first (\<lambda>ks. ks) example_sampler example_store)) = 42
   \<and> (\<exists>first adds.
        calls_of (run_hooks (\<lambda>ks. ks) [Observe, Update [] False, Executor_sets 1 2 [] [] [], Observe]
          (on_execution_observe_first (\<lambda>ks. ks) example_sampler example_store)) = [] @ first # adds
        \<and> forwarded_keys first = Some 42
        \<and> length adds = 2
        \<and> list_all (\<lambda>call. is_add call \<and> forwarded_keys call = Some 42) adds)"
proof -
  have a: "adder example_store = Some []" by (simp add: example_store_def)
  have h: "list_all (\<lambda>h. \<not> is_observe_first h)
             [Observe, Update [] False, Executor_sets 1 2 [] [] [], Observe :: (nat, nat, nat) hook]"
    by simp
  have v: "fst (example_sampler ((\<lambda>ks. ks) (map fst (agent_net_keys example_store)))
             (network_sampling_setup example_store) (net_keys_to_ids example_store)) = 42"
    by (simp add: example_sampler_def)
  show ?thesis
    using network_int_keys_stable [OF a h, of "\<lambda>ks. ks" example_sampler]
    unfolding v by auto
qed

section \<open>When a reply is merged\<close>

text \<open>
  In single-process mode with period 1 the first call of \<^verbatim>\<open>get_async\<close> sends the
  request and merges the reply before it returns: the call that issues the request is the
  call that updates the replica.
\<close>

theorem get_async_single_process_merges_at_once:
  "server (example_client False 1) = []
   \<and> heap (example_client False 1) ! 0 = int64_array [2] [7, 8]
   \<and> map request (server (post (get_async [(''w'', int64_array [2] [1, 2])] False
         (example_client False 1)))) = [GetParameters (KeyList [''w'', ''layers''])]
   \<and> heap (post (get_async [(''w'', int64_array [2] [1, 2])] False (example_client False 1))) ! 0 =
       int64_array [2] [1, 2]
   \<and> get_future (post (get_async [(''w'', int64_array [2] [1, 2])] False (example_client False 1))) =
       None"
  by (simp add: example_client_def init_def get_async_def async_request_def done_future_def
        send_def handle_status_def Let_def copy_ndarray_def local_object_def mutate_def
        imul_zero_def iadd_def broadcast_to_def wrap_def numeral_2_eq_2)

text \<open>
  Claim C6, amended. A call of \<^verbatim>\<open>get_async\<close> merges exactly when the handle in the
  slot is done at its poll, and the poll comes after the request is sent. In single-process
  mode the handle is complete at once (as it is when a remote reply arrives before the
  poll), so the issuing call itself merges the reply. In multi-process mode with the reply
  not yet there, the issuing call leaves the replica untouched and keeps the handle; a
  later call that finds the handle done merges its result and empties the slot, and a call
  that finds it pending only counts.
\<close>

theorem get_async_merge_timing:
  "(get_future c = None \<and> update_period c \<le> counted (get_call_counter c) (update_period c)
      \<and> (\<not> multi_process c \<or> early) \<longrightarrow>
        server (get_request reply early c) = server c @ [get_rpc c (Done reply)]
        \<and> get_async reply early c =
             (case copy (get_request reply early c) reply of
                Returned c' \<Rightarrow> Returned (c'\<lparr>get_future := None\<rparr>)
              | Raised e c' \<Rightarrow> Raised e c'))
   \<and> (get_future c = None \<and> update_period c \<le> counted (get_call_counter c) (update_period c)
      \<and> multi_process c \<and> \<not> early \<longrightarrow>
        server (get_request reply early c) = server c @ [get_rpc c Pending]
        \<and> get_async reply early c = Returned (get_request reply early c)
        \<and> heap (get_request reply early c) = heap c
        \<and> parameters (get_request reply early c) = parameters c
        \<and> get_future (get_request reply early c) = Some (length (server c)))
   \<and> (get_future c = Some f \<and> handle_status c f = Done r \<longrightarrow>
        get_async reply early c =
          (case copy (c\<lparr>get_call_counter := counted (get_call_counter c) (update_period c)\<rparr>) r of
             Returned c' \<Rightarrow> Returned (c'\<lparr>get_future := None\<rparr>)
           | Raised e c' \<Rightarrow> Raised e c'))
   \<and> (get_future c = Some f \<and> handle_status c f = Pending \<longrightarrow>
        get_async reply early c =
          Returned (c\<lparr>get_call_counter := counted (get_call_counter c) (update_period c)\<rparr>))"
proof -
  let ?c1 = "c\<lparr>get_call_counter := counted (get_call_counter c) (update_period c)\<rparr>"
  have req: "get_request reply early c =
      (async_request reply early ?c1)\<lparr>get_future := Some (length (server c)), get_call_counter := 0\<rparr>"
    if "get_future c = None" "update_period c \<le> counted (get_call_counter c) (update_period c)"
    using that by (simp add: get_request_def Let_def)
  have srv: "server (get_request reply early c) =
      server c @ [get_rpc c (if multi_process c \<and> \<not> early then Pending else Done reply)]"
    if "get_future c = None" "update_period c \<le> counted (get_call_counter c) (update_period c)"
    using that by (simp add: req server_async_request get_rpc_def)
  have st: "handle_status (get_request reply early c) (length (server c)) =
      (if multi_process c \<and> \<not> early then Pending else Done reply)"
    if "get_future c = None" "update_period c \<le> counted (get_call_counter c) (update_period c)"
    using srv[OF that] by (simp add: handle_status_def get_rpc_def)
  have gf: "get_future (get_request reply early c) = Some (length (server c))"
    if "get_future c = None" "update_period c \<le> counted (get_call_counter c) (update_period c)"
    using that by (simp add: req)
  have p1: "server (get_request reply early c) = server c @ [get_rpc c (Done reply)]
        \<and> get_async reply early c =
             (case copy (get_request reply early c) reply of
                Returned c' \<Rightarrow> Returned (c'\<lparr>get_future := None\<rparr>)
              | Raised e c' \<Rightarrow> Raised e c')"
    if "get_future c = None" "update_period c \<le> counted (get_call_counter c) (update_period c)"
      "\<not> multi_process c \<or> early"
  proof -
    have "(if multi_process c \<and> \<not> early then Pending else Done reply) = Done reply"
      using that(3) by auto
    then show ?thesis
      using srv[OF that(1,2)] st[OF that(1,2)] gf[OF that(1,2)]
      by (simp add: get_async_halves get_collect_def)
  qed
  have p2: "server (get_request reply early c) = server c @ [get_rpc c Pending]
        \<and> get_async reply early c = Returned (get_request reply early c)
        \<and> heap (get_request reply early c) = heap c
        \<and> parameters (get_request reply early c) = parameters c
        \<and> get_future (get_request reply early c) = Some (length (server c))"
    if "get_future c = None" "update_period c \<le> counted (get_call_counter c) (update_period c)"
      "multi_process c" "\<not> early"
  proof -
    have "heap (get_request reply early c) = heap c"
      "parameters (get_request reply early c) = parameters c"
      by (simp_all add: req[OF that(1,2)] async_request_def remote_future_def done_future_def
            send_def)
    then show ?thesis
      using srv[OF that(1,2)] st[OF that(1,2)] gf[OF that(1,2)] that(3,4)
      by (simp add: get_async_halves get_collect_def)
  qed
  have later: "get_request reply early c = ?c1" if "get_future c = Some f"
    using that by (simp add: get_request_def Let_def)
  have hs: "handle_status ?c1 f = handle_status c f" by (simp add: handle_status_def)
  have p3: "get_async reply early c =
          (case copy ?c1 r of
             Returned c' \<Rightarrow> Returned (c'\<lparr>get_future := None\<rparr>)
           | Raised e c' \<Rightarrow> Raised e c')"
    if "get_future c = Some f" "handle_status c f = Done r"
    using that hs by (simp add: get_async_halves later get_collect_def)
  have p4: "get_async reply early c = Returned ?c1"
    if "get_future c = Some f" "handle_status c f = Pending"
    using that hs by (simp add: get_async_halves later get_collect_def)
  show ?thesis using p1 p2 p3 p4 by blast
qed

theorem get_async_merge_timing_witness:
  "get_async [(''w'', int64_array [2] [1, 2])] False (example_client True 1) =
     Returned (get_request [(''w'', int64_array [2] [1, 2])] False (example_client True 1))
   \<and> heap (get_request [(''w'', int64_array [2] [1, 2])] False (example_client True 1)) =
       heap (example_client True 1)
   \<and> get_async [] False
       (complete 0 [(''w'', int64_array [2] [1, 2])]
          (get_request [(''w'', int64_array [2] [1, 2])] False (example_client True 1))) =
     (case copy ((complete 0 [(''w'', int64_array [2] [1, 2])]
                   (get_request [(''w'', int64_array [2] [1, 2])] False (example_client True 1)))
                  \<lparr>get_call_counter := 1\<rparr>) [(''w'', int64_array [2] [1, 2])] of
        Returned c' \<Rightarrow> Returned (c'\<lparr>get_future := None\<rparr>)
      | Raised e c' \<Rightarrow> Raised e c')"
proof -
  let ?r = "[(''w'', int64_array [2] [1, 2])]"
  let ?c = "example_client True 1"
  let ?d = "complete 0 ?r (get_request ?r False ?c)"
  have c: "get_future ?c = None" "update_period ?c \<le> counted (get_call_counter ?c) (update_period ?c)"
    "multi_process ?c"
    by (simp_all add: example_client_def init_def counted_def)
  have d: "get_future ?d = Some 0" "handle_status ?d 0 = Done ?r"
    "counted (get_call_counter ?d) (update_period ?d) = 1"
    by (simp_all add: example_client_def init_def counted_def get_request_def async_request_def
          remote_future_def send_def complete_def handle_status_def Let_def)
  show ?thesis
    using get_async_merge_timing [where c = ?c and early = False and reply = ?r]
      get_async_merge_timing [where c = ?d and f = 0 and r = ?r and reply = "[]" and early = False]
      c d
    by simp
qed

section \<open>The combined set-then-get\<close>

text \<open>
  Claim C5 at a concrete client whose get keys are \<^verbatim>\<open>w\<close> and \<^verbatim>\<open>layers\<close> and
  whose set keys are \<^verbatim>\<open>w\<close>: in single-process mode the triggered operation asks the
  server for both get keys, \<^verbatim>\<open>w\<close> included, although it has just written it; in
  multi-process mode it asks for the difference only.
\<close>

theorem set_and_get_async_single_process_refetches:
  "set (get_keys (example_client False 1)) - set (set_keys (example_client False 1)) = {''layers''}
   \<and> map request (server (post (set_and_get_async [] (example_client False 1)))) =
       [SetParameters [(''w'', int64_array [2] [7, 8])], GetParameters (KeyList [''w'', ''layers''])]
   \<and> map request (server (post (set_and_get_async [] (example_client True 1)))) =
       [SetParameters [(''w'', int64_array [2] [7, 8])], GetParameters (KeySet {''layers''})]"
  by (auto simp: example_client_def init_def set_and_get_async_def async_adjust_and_request_def
        adjust_and_request_def send_def Let_def copy_ndarray_def copy_tuple_def local_object_def
        mutate_def imul_zero_def iadd_def broadcast_to_def)

section \<open>Accumulated adds\<close>

text \<open>
  Claim C1 at a concrete run in multi-process mode: the first add is sent, the second is
  buffered behind it, and a third add for a name that is not in the buffer raises KeyError.
  Nothing for that name is sent or buffered: the delta is lost.
\<close>

theorem add_async_new_key_is_lost:
  "raised (add_async [(''episodes'', 1)]
     (run [Add_async_call [(''steps'', 1)], Add_async_call [(''steps'', 1)]]
        (example_client True 1))) = Some (KeyError ''episodes'')
   \<and> map request (server (post (add_async [(''episodes'', 1)]
        (run [Add_async_call [(''steps'', 1)], Add_async_call [(''steps'', 1)]]
           (example_client True 1))))) = [AddToParameters [(''steps'', 1)]]
   \<and> async_add_buffer (post (add_async [(''episodes'', 1)]
        (run [Add_async_call [(''steps'', 1)], Add_async_call [(''steps'', 1)]]
           (example_client True 1)))) = [(''steps'', 1)]"
  by (simp add: example_client_def init_def add_async_def async_add_def remote_future_def
        send_def handle_status_def Let_def)

text \<open>
  Claim C4 at a concrete run in multi-process mode: with one delta buffered and the add in
  flight completed, a further add that brings a new name raises KeyError in the loop that
  sums into the buffer; the buffer is neither flushed nor emptied, and holds the sum for
  the names before the new one.
\<close>

theorem add_async_flush_fails_on_new_key:
  "raised (add_async [(''steps'', 1), (''episodes'', 1)]
     (run [Add_async_call [(''steps'', 1)], Add_async_call [(''steps'', 1)], Completes 0 []]
        (example_client True 1))) = Some (KeyError ''episodes'')
   \<and> map request (server (post (add_async [(''steps'', 1), (''episodes'', 1)]
        (run [Add_async_call [(''steps'', 1)], Add_async_call [(''steps'', 1)], Completes 0 []]
           (example_client True 1))))) = [AddToParameters [(''steps'', 1)]]
   \<and> async_add_buffer (post (add_async [(''steps'', 1), (''episodes'', 1)]
        (run [Add_async_call [(''steps'', 1)], Add_async_call [(''steps'', 1)], Completes 0 []]
           (example_client True 1)))) = [(''steps'', 2)]"
  by (simp add: example_client_def init_def add_async_def async_add_def remote_future_def
        send_def handle_status_def complete_def Let_def)

end
